theory Spec2Isabelle
  imports Main "HOL-Library.Multiset" "HOL-Library.Sublist" "HOL-Library.Char_ord"
    "HOL-Library.List_Lexorder" "HOL-Library.Code_Target_Nat"
begin

section \<open>Data model\<close>

text \<open>
  A row is the list of text fields that \<^verbatim>\<open>csv.reader\<close> yields for one record. Fields are
  compared the way Python compares \<^verbatim>\<open>str\<close> (by code point, here the order of \<open>char\<close>), and
  rows and sort keys the way Python compares lists (lexicographically, a proper prefix
  being smaller): these are the orders of \<open>Char_ord\<close> and \<open>List_Lexorder\<close>.

  A file is identified by its path and holds the sequence of rows that \<^verbatim>\<open>csv.writer\<close> has
  written to it; reading it back with \<^verbatim>\<open>csv.reader\<close> yields the same rows. Delimiter,
  quoting and encoding only affect the bytes of a file and have no counterpart here.
\<close>

type_synonym row = "string list"

datatype colspec = Index int | Name string

text \<open>
  The first three errors are the three messages of \<^verbatim>\<open>CsvSortError\<close> raised by
  \<^verbatim>\<open>parse_columns\<close>; the others are the Python built-in exceptions the code can run into.
\<close>

datatype error =
    ColumnOutOfRange int
  | ColumnNotFound string
  | MissingHeader string
  | IndexError
  | TypeError
  | StopIteration
  | FileNotFoundError

record fs =
  dirs :: "string set"
  files :: "string \<rightharpoonup> row list"

section \<open>Python and operating-system primitives\<close>

text \<open>\<^verbatim>\<open>'{}'.format(n)\<close> for a natural number: its decimal digits.\<close>

function str_nat :: "nat \<Rightarrow> string" where
  "str_nat n =
     (if n < 10 then [''0123456789'' ! n]
      else str_nat (n div 10) @ [''0123456789'' ! (n mod 10)])"
  by pat_completeness auto
termination
  by (relation "measure id") auto

declare str_nat.simps [simp del]

text \<open>\<^verbatim>\<open>os.path.join(d, name)\<close> for a relative \<open>name\<close>.\<close>

definition path_join :: "string \<Rightarrow> string \<Rightarrow> string" where
  "path_join d name =
     (if d = [] then name
      else if last d = CHR ''/'' then d @ name
      else d @ ''/'' @ name)"

text \<open>\<^verbatim>\<open>xs[i]\<close>: negative indices count from the end, anything out of range raises.\<close>

definition getitem :: "'a list \<Rightarrow> int \<Rightarrow> error + 'a" where
  "getitem xs i =
     (if 0 \<le> i \<and> i < int (length xs) then Inr (xs ! nat i)
      else if i < 0 \<and> - int (length xs) \<le> i then Inr (xs ! (length xs - nat (- i)))
      else Inl IndexError)"

text \<open>\<^verbatim>\<open>xs[:n]\<close> and \<^verbatim>\<open>xs[n:]\<close>.\<close>

definition slice_to :: "int \<Rightarrow> 'a list \<Rightarrow> 'a list" where
  "slice_to n xs = (if 0 \<le> n then take (nat n) xs else take (length xs - nat (- n)) xs)"

definition slice_from :: "int \<Rightarrow> 'a list \<Rightarrow> 'a list" where
  "slice_from n xs = (if 0 \<le> n then drop (nat n) xs else drop (length xs - nat (- n)) xs)"

text \<open>\<^verbatim>\<open>xs.index(x)\<close> for an \<open>x\<close> that occurs in \<open>xs\<close>: its first position.\<close>

fun index :: "'a list \<Rightarrow> 'a \<Rightarrow> nat" where
  "index [] x = 0"
| "index (y # ys) x = (if y = x then 0 else Suc (index ys x))"

text \<open>Truth value of \<^verbatim>\<open>header\<close>: \<^verbatim>\<open>None\<close> and the empty list are false.\<close>

fun truthy :: "row option \<Rightarrow> bool" where
  "truthy None = False"
| "truthy (Some h) = (h \<noteq> [])"

text \<open>Running a list of fallible computations in order, stopping at the first that raises.\<close>

fun collect :: "(error + 'a) list \<Rightarrow> error + 'a list" where
  "collect [] = Inr []"
| "collect (Inl e # rs) = Inl e"
| "collect (Inr x # rs) = (case collect rs of Inl e \<Rightarrow> Inl e | Inr xs \<Rightarrow> Inr (x # xs))"

text \<open>
  File operations. \<^verbatim>\<open>open(f, 'w')\<close> creates or truncates, \<^verbatim>\<open>writerow\<close> appends a row,
  \<^verbatim>\<open>os.remove\<close> raises on a missing file, \<^verbatim>\<open>shutil.rmtree(d, ignore_errors=True)\<close> removes
  the directory and everything below it.
\<close>

definition makedirs :: "string \<Rightarrow> fs \<Rightarrow> fs" where
  "makedirs d s = s\<lparr>dirs := insert d (dirs s)\<rparr>"

definition rmtree :: "string \<Rightarrow> fs \<Rightarrow> fs" where
  "rmtree d s =
     s\<lparr>dirs := dirs s - {d},
       files := (\<lambda>p. if prefix (d @ ''/'') p then None else files s p)\<rparr>"

definition open_w :: "string \<Rightarrow> fs \<Rightarrow> fs" where
  "open_w f s = s\<lparr>files := (files s)(f \<mapsto> [])\<rparr>"

definition writerow :: "string \<Rightarrow> row \<Rightarrow> fs \<Rightarrow> fs" where
  "writerow f r s =
     s\<lparr>files := (files s)(f \<mapsto> (case files s f of None \<Rightarrow> [] | Some rs \<Rightarrow> rs) @ [r])\<rparr>"

fun writerows :: "string \<Rightarrow> row list \<Rightarrow> fs \<Rightarrow> fs" where
  "writerows f [] s = s"
| "writerows f (r # rs) s = writerows f rs (writerow f r s)"

definition read_rows :: "string \<Rightarrow> fs \<Rightarrow> error + row list" where
  "read_rows f s = (case files s f of None \<Rightarrow> Inl FileNotFoundError | Some rs \<Rightarrow> Inr rs)"

definition remove :: "string \<Rightarrow> fs \<Rightarrow> error + fs" where
  "remove f s =
     (case files s f of
        None \<Rightarrow> Inl FileNotFoundError
      | Some _ \<Rightarrow> Inr (s\<lparr>files := (files s)(f := None)\<rparr>))"

text \<open>
  \<^verbatim>\<open>heapq.merge(*streams)\<close> with no key: the heap holds one entry \<open>[value, order, next]\<close> per
  stream that is not exhausted, \<open>order\<close> being the position of the stream, and always
  yields the least \<open>(value, order)\<close>; \<open>least_head\<close> is the position of that stream.
\<close>

fun least_head :: "('a::linorder) list list \<Rightarrow> nat option" where
  "least_head [] = None"
| "least_head (s # ss) =
     (case least_head ss of
        None \<Rightarrow> (if s = [] then None else Some 0)
      | Some j \<Rightarrow> (if s \<noteq> [] \<and> hd s \<le> hd (ss ! j) then Some 0 else Some (Suc j)))"

lemma least_head_Some:
  "least_head ss = Some i \<Longrightarrow> i < length ss \<and> ss ! i \<noteq> []"
  by (induction ss arbitrary: i) (auto split: option.splits if_splits)

lemma sum_length_tl_less:
  "i < length ss \<Longrightarrow> ss ! i \<noteq> [] \<Longrightarrow>
   sum_list (map length (ss[i := tl (ss ! i)])) < sum_list (map length ss)"
proof (induction ss arbitrary: i)
  case Nil
  then show ?case by simp
next
  case (Cons s ss)
  show ?case
  proof (cases i)
    case 0
    with Cons.prems show ?thesis by (cases s) simp_all
  next
    case (Suc j)
    with Cons show ?thesis by simp
  qed
qed

function heapq_merge :: "('a::linorder) list list \<Rightarrow> 'a list" where
  "heapq_merge streams =
     (case least_head streams of
        None \<Rightarrow> []
      | Some i \<Rightarrow> hd (streams ! i) # heapq_merge (streams[i := tl (streams ! i)]))"
  by pat_completeness auto
termination
proof (relation "measure (\<lambda>ss. sum_list (map length ss))", goal_cases)
  case 1
  show ?case by simp
next
  case (2 streams i)
  then have "i < length streams" and "streams ! i \<noteq> []"
    using least_head_Some by blast+
  then show ?case
    using sum_length_tl_less [of i streams] by simp
qed

declare heapq_merge.simps [simp del]

section \<open>The program\<close>

subsection \<open>\<^verbatim>\<open>parse_columns\<close>\<close>

text \<open>
  The loop \<^verbatim>\<open>for i, column in enumerate(columns)\<close> at position \<open>i\<close>. The list \<open>columns\<close>
  is the caller's list object: the assignment \<^verbatim>\<open>columns[i] = header.index(column)\<close>
  updates it in place, so the function returns the final content of that list next to
  its result (on success the very same list).
\<close>

function parse_columns_from ::
  "nat \<Rightarrow> colspec list \<Rightarrow> row option \<Rightarrow> colspec list \<times> (error + colspec list)" where
  "parse_columns_from i columns header =
     (if i < length columns then
        (case columns ! i of
           Index column \<Rightarrow>
             if truthy header \<and> column \<ge> int (length (the header))
             then (columns, Inl (ColumnOutOfRange column))
             else parse_columns_from (i + 1) columns header
         | Name column \<Rightarrow>
             if truthy header then
               if column \<in> set (the header)
               then parse_columns_from (i + 1)
                      (columns[i := Index (int (index (the header) column))]) header
               else (columns, Inl (ColumnNotFound column))
             else (columns, Inl (MissingHeader column)))
      else (columns, Inr columns))"
  by pat_completeness auto
termination
  by (relation "measure (\<lambda>(i, columns, header). length columns - i)") auto

declare parse_columns_from.simps [simp del]

definition parse_columns ::
  "colspec list \<Rightarrow> row option \<Rightarrow> colspec list \<times> (error + colspec list)" where
  "parse_columns columns header = parse_columns_from 0 columns header"

subsection \<open>\<^verbatim>\<open>csvsplit\<close>\<close>

text \<open>
  \<open>getsizeof\<close> stands for \<^verbatim>\<open>sys.getsizeof\<close> on a row, which belongs to the interpreter.
  \<open>max_size\<close> is a whole number of megabytes, as the default 100 is.
  \<open>writer\<close> is the path of the chunk file the current writer appends to, if there is one.
  The code never closes these files itself; the interpreter closes a file when its writer
  is dropped, so the rows written are in the file when \<^verbatim>\<open>csvsplit\<close> returns.
\<close>

fun csvsplit_loop ::
  "(row \<Rightarrow> nat) \<Rightarrow> int \<Rightarrow> string \<Rightarrow> row list \<Rightarrow> string option \<Rightarrow> nat \<Rightarrow> string list \<Rightarrow> fs
     \<Rightarrow> fs \<times> string list" where
  "csvsplit_loop getsizeof max_size tmp_dir [] writer current_size split_filenames s =
     (s, split_filenames)"
| "csvsplit_loop getsizeof max_size tmp_dir (r # reader) writer current_size split_filenames s =
     (let (filename, split_filenames1, s1) =
            (case writer of
               None \<Rightarrow>
                 (let filename =
                        path_join tmp_dir (''split'' @ str_nat (length split_filenames) @ ''.csv'')
                  in (filename, split_filenames @ [filename], open_w filename s))
             | Some filename \<Rightarrow> (filename, split_filenames, s));
          s2 = writerow filename r s1;
          current_size1 = current_size + getsizeof r
      in if int current_size1 > max_size
         then csvsplit_loop getsizeof max_size tmp_dir reader None 0 split_filenames1 s2
         else csvsplit_loop getsizeof max_size tmp_dir reader (Some filename) current_size1
                split_filenames1 s2)"

definition csvsplit ::
  "(row \<Rightarrow> nat) \<Rightarrow> row list \<Rightarrow> int \<Rightarrow> string \<Rightarrow> fs \<Rightarrow> fs \<times> string list" where
  "csvsplit getsizeof reader max_size tmp_dir s =
     csvsplit_loop getsizeof (max_size * 1024 * 1024) tmp_dir reader None 0 [] s"

subsection \<open>\<^verbatim>\<open>memorysort\<close>\<close>

text \<open>The sort key \<^verbatim>\<open>[row[column] for column in columns]\<close>.\<close>

definition sort_key_of :: "colspec list \<Rightarrow> row \<Rightarrow> error + string list" where
  "sort_key_of columns r =
     collect (map (\<lambda>column. case column of
                       Index c \<Rightarrow> getitem r c
                     | Name _ \<Rightarrow> Inl TypeError) columns)"

text \<open>
  \<^verbatim>\<open>rows.sort(key=...)\<close>: the keys of all rows are computed first, then the rows are sorted
  stably on them.
\<close>

definition sort_rows :: "colspec list \<Rightarrow> row list \<Rightarrow> error + row list" where
  "sort_rows columns rows =
     (case collect (map (sort_key_of columns) rows) of
        Inl e \<Rightarrow> Inl e
      | Inr keys \<Rightarrow> Inr (map snd (sort_key fst (zip keys rows))))"

definition memorysort :: "string \<Rightarrow> colspec list \<Rightarrow> fs \<Rightarrow> fs \<times> (error + unit)" where
  "memorysort filename columns s =
     (case read_rows filename s of
        Inl e \<Rightarrow> (s, Inl e)
      | Inr rows \<Rightarrow>
          (case sort_rows columns rows of
             Inl e \<Rightarrow> (s, Inl e)
           | Inr sorted_rows \<Rightarrow> (writerows filename sorted_rows (open_w filename s), Inr ())))"

subsection \<open>\<^verbatim>\<open>mergesort\<close>\<close>

fun read_all :: "string list \<Rightarrow> fs \<Rightarrow> error + row list list" where
  "read_all [] s = Inr []"
| "read_all (f # fs) s =
     (case read_rows f s of
        Inl e \<Rightarrow> Inl e
      | Inr rows \<Rightarrow> (case read_all fs s of Inl e \<Rightarrow> Inl e | Inr rest \<Rightarrow> Inr (rows # rest)))"

fun remove_all :: "string list \<Rightarrow> fs \<Rightarrow> fs \<times> (error + unit)" where
  "remove_all [] s = (s, Inr ())"
| "remove_all (f # fs) s =
     (case remove f s of Inl e \<Rightarrow> (s, Inl e) | Inr s1 \<Rightarrow> remove_all fs s1)"

text \<open>
  The \<^verbatim>\<open>while\<close> loop, with the local \<open>merge_n\<close> as an argument. It does not end for every
  \<open>nway\<close>, so the result is an option, \<open>None\<close> standing for a loop that runs forever.
\<close>

partial_function (option) mergesort_loop ::
  "string list \<Rightarrow> colspec list \<Rightarrow> int \<Rightarrow> string \<Rightarrow> nat \<Rightarrow> fs \<Rightarrow> (fs \<times> (error + string)) option"
  where
  "mergesort_loop sorted_filenames columns nway tmp_dir merge_n s =
     (if length sorted_filenames > 1 then
        (let merge_filenames = slice_to nway sorted_filenames;
             sorted_filenames1 = slice_from nway sorted_filenames;
             output_filename = path_join tmp_dir (''merge'' @ str_nat merge_n @ ''.csv'');
             s1 = open_w output_filename s
         in case read_all merge_filenames s1 of
              Inl e \<Rightarrow> Some (s1, Inl e)
            | Inr streams \<Rightarrow>
                (case remove_all merge_filenames
                        (writerows output_filename (heapq_merge streams) s1) of
                   (s3, Inl e) \<Rightarrow> Some (s3, Inl e)
                 | (s3, Inr _) \<Rightarrow>
                     mergesort_loop (sorted_filenames1 @ [output_filename]) columns nway
                       tmp_dir (merge_n + 1) s3))
      else (case sorted_filenames of
              [] \<Rightarrow> Some (s, Inl IndexError)
            | filename # _ \<Rightarrow> Some (s, Inr filename)))"

declare mergesort_loop.simps [code]

definition mergesort ::
  "string list \<Rightarrow> colspec list \<Rightarrow> int \<Rightarrow> string \<Rightarrow> fs \<Rightarrow> (fs \<times> (error + string)) option" where
  "mergesort sorted_filenames columns nway tmp_dir s =
     mergesort_loop sorted_filenames columns nway tmp_dir 0 s"

subsection \<open>\<^verbatim>\<open>csvsort\<close>\<close>

fun memorysort_each :: "string list \<Rightarrow> colspec list \<Rightarrow> fs \<Rightarrow> fs \<times> (error + unit)" where
  "memorysort_each [] columns s = (s, Inr ())"
| "memorysort_each (filename # filenames) columns s =
     (case memorysort filename columns s of
        (s1, Inl e) \<Rightarrow> (s1, Inl e)
      | (s1, Inr _) \<Rightarrow> memorysort_each filenames columns s1)"

text \<open>\<^verbatim>\<open>header = next(reader)\<close> when \<open>has_header\<close>, \<^verbatim>\<open>header = None\<close> otherwise.\<close>

definition take_header :: "bool \<Rightarrow> row list \<Rightarrow> error + row option \<times> row list" where
  "take_header has_header input_rows =
     (if has_header then
        (case input_rows of [] \<Rightarrow> Inl StopIteration | h # reader \<Rightarrow> Inr (Some h, reader))
      else Inr (None, input_rows))"

text \<open>
  The body of the \<^verbatim>\<open>try\<close> statement. Every \<^verbatim>\<open>raise\<close> inside it is a result \<open>Inl\<close> paired with
  the file system as it is at that moment. The input is read as a whole when it is opened,
  which is what the lazy reader yields as long as the input file is not one of the files
  the run writes in its workspace.
\<close>

definition csvsort_try ::
  "(row \<Rightarrow> nat) \<Rightarrow> string \<Rightarrow> string \<Rightarrow> colspec list \<Rightarrow> string \<Rightarrow> int \<Rightarrow> bool \<Rightarrow> fs
     \<Rightarrow> (fs \<times> (error + unit)) option" where
  "csvsort_try getsizeof tmp_dir input_filename columns output_filename max_size has_header s =
     (case read_rows input_filename s of
        Inl e \<Rightarrow> Some (s, Inl e)
      | Inr input_rows \<Rightarrow>
          (case take_header has_header input_rows of
             Inl e \<Rightarrow> Some (s, Inl e)
           | Inr (header, reader) \<Rightarrow>
               (case snd (parse_columns columns header) of
                  Inl e \<Rightarrow> Some (s, Inl e)
                | Inr columns1 \<Rightarrow>
                    (let (s1, filenames) = csvsplit getsizeof reader max_size tmp_dir s
                     in case memorysort_each filenames columns1 s1 of
                          (s2, Inl e) \<Rightarrow> Some (s2, Inl e)
                        | (s2, Inr _) \<Rightarrow>
                            (case mergesort filenames columns1 2 tmp_dir s2 of
                               None \<Rightarrow> None
                             | Some (s3, Inl e) \<Rightarrow> Some (s3, Inl e)
                             | Some (s3, Inr sorted_filename) \<Rightarrow>
                                 (let out = (if output_filename = [] then input_filename
                                             else output_filename);
                                      s4 = open_w out s3;
                                      s5 = (if truthy header then writerow out (the header) s4
                                            else s4)
                                  in case read_rows sorted_filename s5 of
                                       Inl e \<Rightarrow> Some (s5, Inl e)
                                     | Inr rows \<Rightarrow> Some (writerows out rows s5, Inr ())))))))"

text \<open>
  \<^verbatim>\<open>csvsort\<close>: the workspace directory named after the process id, the \<^verbatim>\<open>try\<close> body, and the
  \<^verbatim>\<open>finally\<close> clause that runs on every way out of it.
\<close>

definition tmp_dir_of :: "nat \<Rightarrow> string" where
  "tmp_dir_of pid = ''.csvsorter.'' @ str_nat pid"

definition csvsort ::
  "(row \<Rightarrow> nat) \<Rightarrow> nat \<Rightarrow> string \<Rightarrow> colspec list \<Rightarrow> string \<Rightarrow> int \<Rightarrow> bool \<Rightarrow> fs
     \<Rightarrow> (fs \<times> (error + unit)) option" where
  "csvsort getsizeof pid input_filename columns output_filename max_size has_header s =
     (let tmp_dir = tmp_dir_of pid;
          s0 = makedirs tmp_dir s
      in case csvsort_try getsizeof tmp_dir input_filename columns output_filename max_size
                has_header s0 of
           None \<Rightarrow> None
         | Some (s1, result) \<Rightarrow> Some (rmtree tmp_dir s1, result))"

section \<open>Reference definitions for column resolution\<close>

text \<open>
  What one specifier amounts to on its own, in the words of the specification: the error
  it calls for, if any, and the index it resolves to. A numeric specifier is valid as it is
  when no header exists and out of range when a header exists and the index is not below
  its length; a name needs a header and must occur in it.
\<close>

definition offence :: "row option \<Rightarrow> colspec \<Rightarrow> error option" where
  "offence header c =
     (case c of
        Index n \<Rightarrow>
          (case header of
             None \<Rightarrow> None
           | Some h \<Rightarrow> if n \<ge> int (length h) then Some (ColumnOutOfRange n) else None)
      | Name x \<Rightarrow>
          (case header of
             None \<Rightarrow> Some (MissingHeader x)
           | Some h \<Rightarrow> if x \<in> set h then None else Some (ColumnNotFound x)))"

definition resolve :: "row option \<Rightarrow> colspec \<Rightarrow> colspec" where
  "resolve header c =
     (case c of Index n \<Rightarrow> Index n | Name x \<Rightarrow> Index (int (index (the header) x)))"

abbreviation accepted :: "row option \<Rightarrow> colspec \<Rightarrow> bool" where
  "accepted header c \<equiv> offence header c = None"

section \<open>Concrete runs\<close>

text \<open>
  For runs on concrete inputs: a disk that holds one file, and the size CPython reports on
  a 64-bit machine for a list with no spare capacity (56 bytes and 8 for each item) in
  the place of \<^verbatim>\<open>sys.getsizeof\<close>. With \<open>max_size = 0\<close> every row then closes its chunk.
\<close>

definition getsizeof_min :: "row \<Rightarrow> nat" where
  "getsizeof_min r = 56 + 8 * length r"

text \<open>
  A size measure that counts 600000 bytes for every row, for runs in which a chunk of one
  megabyte takes two rows: the running size exceeds \<open>1024 * 1024\<close> at every second row.
\<close>

definition getsizeof_wide :: "row \<Rightarrow> nat" where
  "getsizeof_wide r = 600000"

definition disk_with :: "string \<Rightarrow> row list \<Rightarrow> fs" where
  "disk_with f rows = \<lparr>dirs = {}, files = [f \<mapsto> rows]\<rparr>"

text \<open>What a run leaves in the file \<open>p\<close>, next to its result.\<close>

definition outcome ::
  "string \<Rightarrow> (fs \<times> (error + unit)) option \<Rightarrow> (row list option \<times> (error + unit)) option" where
  "outcome p r = map_option (\<lambda>(s, result). (files s p, result)) r"

section \<open>Names for the proofs\<close>

text \<open>
  The rows a file holds (none for a missing file), the paths of the chunk and merge files
  as \<^verbatim>\<open>csvsplit\<close> and \<^verbatim>\<open>mergesort\<close> build them, the rows \<^verbatim>\<open>csvsort\<close> writes for the header,
  and the path \<^verbatim>\<open>output_filename or input_filename\<close> of the output.
\<close>

text \<open>
  What the body of the loop of \<^verbatim>\<open>parse_columns\<close> does with one specifier, read off the
  code: the error it raises there, if any.
\<close>

definition check_column :: "row option \<Rightarrow> colspec \<Rightarrow> error option" where
  "check_column header c =
     (case c of
        Index n \<Rightarrow>
          if truthy header \<and> n \<ge> int (length (the header)) then Some (ColumnOutOfRange n)
          else None
      | Name x \<Rightarrow>
          if truthy header
          then (if x \<in> set (the header) then None else Some (ColumnNotFound x))
          else Some (MissingHeader x))"

abbreviation passes :: "row option \<Rightarrow> colspec \<Rightarrow> bool" where
  "passes header c \<equiv> check_column header c = None"

definition content :: "fs \<Rightarrow> string \<Rightarrow> row list" where
  "content s f = (case files s f of None \<Rightarrow> [] | Some rs \<Rightarrow> rs)"

definition split_file :: "string \<Rightarrow> nat \<Rightarrow> string" where
  "split_file tmp_dir n = path_join tmp_dir (''split'' @ str_nat n @ ''.csv'')"

definition merge_file :: "string \<Rightarrow> nat \<Rightarrow> string" where
  "merge_file tmp_dir n = path_join tmp_dir (''merge'' @ str_nat n @ ''.csv'')"

definition header_rows :: "row option \<Rightarrow> row list" where
  "header_rows header = (if truthy header then [the header] else [])"

definition out_path :: "string \<Rightarrow> string \<Rightarrow> string" where
  "out_path input_filename output_filename =
     (if output_filename = [] then input_filename else output_filename)"

text \<open>
  The key tuple of a row as a plain value: the result of \<^verbatim>\<open>[row[column] for column in columns]\<close>
  where it can be computed, the empty tuple where that raises.
\<close>

definition key_of :: "colspec list \<Rightarrow> row \<Rightarrow> string list" where
  "key_of columns r = (case sort_key_of columns r of Inl e \<Rightarrow> [] | Inr key \<Rightarrow> key)"

section \<open>Reference definitions for sorted input and chunk size\<close>

text \<open>
  A file is sorted on the key columns when the key tuples of its data rows can all be
  computed and are in ascending order. All data rows land in one chunk when the sizes of
  all rows but the last add up to no more than \<open>max_size\<close> megabytes: \<^verbatim>\<open>csvsplit\<close> closes a
  chunk only after the running size has exceeded that bound.
\<close>

definition sorted_on :: "colspec list \<Rightarrow> row list \<Rightarrow> bool" where
  "sorted_on columns rows =
     (case collect (map (sort_key_of columns) rows) of
        Inl e \<Rightarrow> False
      | Inr keys \<Rightarrow> sorted keys)"

definition one_chunk :: "(row \<Rightarrow> nat) \<Rightarrow> int \<Rightarrow> row list \<Rightarrow> bool" where
  "one_chunk getsizeof max_size rows =
     (int (sum_list (map getsizeof (butlast rows))) \<le> max_size * 1024 * 1024)"

section \<open>Column resolution\<close>

lemma resolve_simps [simp]:
  "resolve header (Index n) = Index n"
  "resolve header (Name x) = Index (int (index (the header) x))"
  by (simp_all add: resolve_def)

lemma parse_columns_from_eq:
  "i \<le> length columns \<Longrightarrow>
   parse_columns_from i columns header =
     (take i columns @ map (resolve header) (takeWhile (passes header) (drop i columns))
        @ dropWhile (passes header) (drop i columns),
      case dropWhile (passes header) (drop i columns) of
        [] \<Rightarrow> Inr (take i columns @ map (resolve header) (drop i columns))
      | c # _ \<Rightarrow> Inl (the (check_column header c)))"
proof (induction i columns header rule: parse_columns_from.induct)
  case (1 i columns header)
  show ?case
  proof (cases "i < length columns")
    case False
    with "1.prems" show ?thesis
      by (subst parse_columns_from.simps) simp
  next
    case True
    note dr = Cons_nth_drop_Suc [OF True, symmetric]
    note tk = take_Suc_conv_app_nth [OF True]
    note whole = id_take_nth_drop [OF True, symmetric]
    show ?thesis
    proof (cases "columns ! i")
      case (Index n)
      show ?thesis
      proof (cases "passes header (Index n)")
        case True
        then have go: "\<not> (truthy header \<and> n \<ge> int (length (the header)))"
          by (auto simp: check_column_def split: if_splits)
        have "parse_columns_from i columns header = parse_columns_from (i + 1) columns header"
          using \<open>i < length columns\<close> Index go by (subst parse_columns_from.simps) auto
        also have "\<dots> = (take (i + 1) columns @ map (resolve header) (takeWhile (passes header) (drop (i + 1) columns))
        @ dropWhile (passes header) (drop (i + 1) columns),
      case dropWhile (passes header) (drop (i + 1) columns) of
        [] \<Rightarrow> Inr (take (i + 1) columns @ map (resolve header) (drop (i + 1) columns))
      | c # _ \<Rightarrow> Inl (the (check_column header c)))"
          using "1.IH"(1) [OF \<open>i < length columns\<close> Index go] \<open>i < length columns\<close> by simp
        finally show ?thesis
          using True Index by (simp add: dr tk cong: list.case_cong)
      next
        case False
        then have stop: "truthy header \<and> n \<ge> int (length (the header))"
          and off: "check_column header (Index n) = Some (ColumnOutOfRange n)"
          by (auto simp: check_column_def split: if_splits)
        show ?thesis
          using \<open>i < length columns\<close> Index stop off whole
          by (subst parse_columns_from.simps) (simp add: dr)
      qed
    next
      case (Name x)
      show ?thesis
      proof (cases "passes header (Name x)")
        case True
        then have th: "truthy header" and mem: "x \<in> set (the header)"
          by (auto simp: check_column_def split: if_splits)
        let ?cs = "columns[i := Index (int (index (the header) x))]"
        have "parse_columns_from i columns header = parse_columns_from (i + 1) ?cs header"
          using \<open>i < length columns\<close> Name th mem by (subst parse_columns_from.simps) auto
        also have "\<dots> = (take (i + 1) ?cs @ map (resolve header) (takeWhile (passes header) (drop (i + 1) ?cs))
        @ dropWhile (passes header) (drop (i + 1) ?cs),
      case dropWhile (passes header) (drop (i + 1) ?cs) of
        [] \<Rightarrow> Inr (take (i + 1) ?cs @ map (resolve header) (drop (i + 1) ?cs))
      | c # _ \<Rightarrow> Inl (the (check_column header c)))"
          using "1.IH"(2) [OF \<open>i < length columns\<close> Name th mem] \<open>i < length columns\<close> by simp
        finally show ?thesis
          using True Name \<open>i < length columns\<close>
          by (simp add: dr tk take_Suc_conv_app_nth cong: list.case_cong)
      next
        case False
        show ?thesis
        proof (cases "truthy header")
          case True
          with False have "x \<notin> set (the header)" "check_column header (Name x) = Some (ColumnNotFound x)"
            by (auto simp: check_column_def split: if_splits)
          then show ?thesis
            using \<open>i < length columns\<close> Name True whole
            by (subst parse_columns_from.simps) (simp add: dr)
        next
          case nt: False
          then have "check_column header (Name x) = Some (MissingHeader x)"
            by (simp add: check_column_def)
          then show ?thesis
            using \<open>i < length columns\<close> Name nt whole
            by (subst parse_columns_from.simps) (simp add: dr)
        qed
      qed
    qed
  qed
qed

lemma parse_columns_eq:
  "parse_columns columns header =
     (map (resolve header) (takeWhile (passes header) columns)
        @ dropWhile (passes header) columns,
      case dropWhile (passes header) columns of
        [] \<Rightarrow> Inr (map (resolve header) columns)
      | c # _ \<Rightarrow> Inl (the (check_column header c)))"
  unfolding parse_columns_def
  using parse_columns_from_eq [of 0 columns header] by (simp cong: list.case_cong)


lemma collect_map_Inr: "collect (map Inr xs) = Inr xs"
  by (induction xs) simp_all

lemma collect_InrD: "collect rs = Inr xs \<Longrightarrow> rs = map Inr xs"
  by (induction rs arbitrary: xs rule: collect.induct) (auto split: sum.splits)

lemma collect_Inr_iff: "collect rs = Inr xs \<longleftrightarrow> rs = map Inr xs"
  using collect_map_Inr collect_InrD by metis

lemma insort_key_decorated:
  "insort_key fst (k x, x) (map (\<lambda>r. (k r, r)) ys) = map (\<lambda>r. (k r, r)) (insort_key k x ys)"
  by (induction ys) simp_all

lemma sort_key_decorated:
  "sort_key fst (map (\<lambda>r. (k r, r)) xs) = map (\<lambda>r. (k r, r)) (sort_key k xs)"
  by (induction xs) (simp_all add: insort_key_decorated)

lemma zip_decorate: "zip (map k xs) xs = map (\<lambda>r. (k r, r)) xs"
  by (induction xs) simp_all

lemma sort_rows_eq:
  assumes "\<forall>r \<in> set rows. sort_key_of columns r = Inr (k r)"
  shows "sort_rows columns rows = Inr (sort_key k rows)"
proof -
  have "map (sort_key_of columns) rows = map Inr (map k rows)"
    using assms by simp
  then have "collect (map (sort_key_of columns) rows) = Inr (map k rows)"
    by (simp only: collect_Inr_iff)
  then show ?thesis
    by (simp add: sort_rows_def zip_decorate sort_key_decorated comp_def)
qed

lemma sort_rows_Inr:
  assumes "sort_rows columns rows = Inr sorted_rows"
  shows "\<exists>k. (\<forall>r \<in> set rows. sort_key_of columns r = Inr (k r)) \<and> sorted_rows = sort_key k rows"
proof -
  obtain keys where c: "collect (map (sort_key_of columns) rows) = Inr keys"
    using assms by (auto simp: sort_rows_def split: sum.splits)
  then have m: "map (sort_key_of columns) rows = map Inr keys"
    by (simp only: collect_Inr_iff)
  define k where "k = (\<lambda>r. projr (sort_key_of columns r))"
  have "\<forall>r \<in> set rows. sort_key_of columns r = Inr (k r)"
  proof
    fix r assume "r \<in> set rows"
    then have "sort_key_of columns r \<in> set (map Inr keys)"
      using m by (metis image_eqI list.set_map)
    then show "sort_key_of columns r = Inr (k r)"
      by (auto simp: k_def)
  qed
  moreover from this have "sort_rows columns rows = Inr (sort_key k rows)"
    by (rule sort_rows_eq)
  ultimately show ?thesis using assms by auto
qed





lemma find_dropWhile_case:
  "(case List.find (\<lambda>c. \<not> P c) xs of None \<Rightarrow> a | Some c \<Rightarrow> g c) =
   (case dropWhile P xs of [] \<Rightarrow> a | c # _ \<Rightarrow> g c)"
  by (induction xs) simp_all

lemma offence_check_column:
  "header \<noteq> Some [] \<Longrightarrow> offence header c = check_column header c"
  by (cases header; cases c) (auto simp: offence_def check_column_def)

lemma unchanged_if_fixed:
  "(\<And>x. P x \<Longrightarrow> f x = x) \<Longrightarrow> map f (takeWhile P xs) @ dropWhile P xs = xs"
  by (induction xs) auto

lemma resolved_prefix_eq:
  "map (resolve header) (takeWhile (accepted header) columns)
     @ dropWhile (accepted header) columns =
   map (resolve header) (takeWhile (passes header) columns)
     @ dropWhile (passes header) columns"
proof (cases "header = Some []")
  case True
  have a: "accepted header x \<Longrightarrow> resolve header x = x" for x
    unfolding True by (cases x) (simp_all add: offence_def)
  have b: "passes header x \<Longrightarrow> resolve header x = x" for x
    unfolding True by (cases x) (simp_all add: check_column_def)
  show ?thesis
    by (simp only: unchanged_if_fixed [of "accepted header", OF a]
          unchanged_if_fixed [of "passes header", OF b])
next
  case False
  then have "accepted header = passes header"
    by (simp add: fun_eq_iff offence_check_column)
  then show ?thesis by simp
qed

text \<open>
  C5, as the code has it, for a header that is absent or not empty. \<^verbatim>\<open>parse_columns\<close> goes
  through the specifiers in order and fails at the first one that offends, with the error
  of that specifier: out of range for a number not below the length of the header, not
  found for a name that the header lacks, missing header for a name when there is no
  header. When no specifier offends it returns the resolved indices. When it fails, the
  \<^verbatim>\<open>try\<close> body of \<^verbatim>\<open>csvsort\<close> ends with that error and the file system exactly as it found
  it: no chunk file was created.
\<close>

theorem parse_columns_first_offence:
  assumes "header \<noteq> Some []"
  shows "snd (parse_columns columns header) =
     (case List.find (\<lambda>c. offence header c \<noteq> None) columns of
        None \<Rightarrow> Inr (map (resolve header) columns)
      | Some c \<Rightarrow> Inl (the (offence header c))) \<and>
   (read_rows input_filename s = Inr input_rows \<and>
    take_header has_header input_rows = Inr (header, reader) \<and>
    snd (parse_columns columns header) = Inl e \<longrightarrow>
      csvsort_try getsizeof tmp_dir input_filename columns output_filename max_size has_header s
        = Some (s, Inl e))"
proof
  have same: "offence header = check_column header"
    using assms by (simp add: fun_eq_iff offence_check_column)
  show "snd (parse_columns columns header) =
     (case List.find (\<lambda>c. offence header c \<noteq> None) columns of
        None \<Rightarrow> Inr (map (resolve header) columns)
      | Some c \<Rightarrow> Inl (the (offence header c)))"
    unfolding same by (simp only: parse_columns_eq snd_conv find_dropWhile_case)
next
  show "read_rows input_filename s = Inr input_rows \<and>
    take_header has_header input_rows = Inr (header, reader) \<and>
    snd (parse_columns columns header) = Inl e \<longrightarrow>
      csvsort_try getsizeof tmp_dir input_filename columns output_filename max_size has_header s
        = Some (s, Inl e)"
    by (simp add: csvsort_try_def)
qed

theorem parse_columns_first_offence_witness:
  "snd (parse_columns [Index 1, Name ''zz'', Index 5] (Some [''a'', ''b'', ''c'']))
     = Inl (ColumnNotFound ''zz'') \<and>
   csvsort_try getsizeof_min ''.csvsorter.42'' ''in.csv'' [Index 1, Name ''zz'', Index 5]
       ''out.csv'' 0 True (disk_with ''in.csv'' [[''a'', ''b'', ''c''], [''1'', ''2'', ''3'']])
     = Some (disk_with ''in.csv'' [[''a'', ''b'', ''c''], [''1'', ''2'', ''3'']],
             Inl (ColumnNotFound ''zz''))"
proof -
  let ?cols = "[Index 1, Name ''zz'', Index 5]"
  let ?h = "Some [''a'', ''b'', ''c'']"
  let ?s = "disk_with ''in.csv'' [[''a'', ''b'', ''c''], [''1'', ''2'', ''3'']]"
  have f: "List.find (\<lambda>c. offence ?h c \<noteq> None) ?cols = Some (Name ''zz'')"
    by (simp add: offence_def)
  have o: "the (offence ?h (Name ''zz'')) = ColumnNotFound ''zz''"
    by (simp add: offence_def)
  have r: "read_rows ''in.csv'' ?s = Inr [[''a'', ''b'', ''c''], [''1'', ''2'', ''3'']]"
    by (simp add: read_rows_def disk_with_def)
  have t: "take_header True [[''a'', ''b'', ''c''], [''1'', ''2'', ''3'']]
             = Inr (?h, [[''1'', ''2'', ''3'']])"
    by (simp add: take_header_def)
  have h: "?h \<noteq> Some []"
    by simp
  note th = parse_columns_first_offence [OF h, where columns = ?cols
      and input_filename = "''in.csv''" and s = ?s
      and input_rows = "[[''a'', ''b'', ''c''], [''1'', ''2'', ''3'']]" and has_header = True
      and reader = "[[''1'', ''2'', ''3'']]" and e = "ColumnNotFound ''zz''"
      and getsizeof = getsizeof_min and tmp_dir = "''.csvsorter.42''"
      and output_filename = "''out.csv''" and max_size = 0]
  have p: "snd (parse_columns ?cols ?h) = Inl (ColumnNotFound ''zz'')"
    using conjunct1 [OF th] by (simp only: f o option.case)
  have "csvsort_try getsizeof_min ''.csvsorter.42'' ''in.csv'' ?cols ''out.csv'' 0 True ?s
          = Some (?s, Inl (ColumnNotFound ''zz''))"
    by (rule mp [OF conjunct2 [OF th] conjI [OF r conjI [OF t p]]])
  with p show ?thesis by (rule conjI)
qed

text \<open>
  C5 as stated fails: some numeric specifier is not below the header length, yet the error
  is the one of the name that comes first.
\<close>

theorem parse_columns_iff_counterexample:
  "snd (parse_columns [Name ''zz'', Index 5] (Some [''a'', ''b'', ''c'']))
     = Inl (ColumnNotFound ''zz'') \<and>
   int (length [''a'', ''b'', ''c'']) \<le> 5"
  by (simp add: parse_columns_eq check_column_def)


lemma nth_takeWhile_mapped:
  "i < length xs \<Longrightarrow>
   (map f (takeWhile P xs) @ dropWhile P xs) ! i = xs ! i \<or>
   (map f (takeWhile P xs) @ dropWhile P xs) ! i = f (xs ! i)"
proof (induction xs arbitrary: i)
  case Nil
  then show ?case by simp
next
  case (Cons x xs)
  then show ?case by (cases i) auto
qed

lemma length_takeWhile_mapped:
  "length (map f (takeWhile P xs) @ dropWhile P xs) = length xs"
  by (induction xs) simp_all

text \<open>
  C7, as the code has it. \<^verbatim>\<open>parse_columns\<close> does no I/O, but it writes to its argument list:
  every specifier before the first offending one is overwritten by its resolved index, the
  rest of the list is left as it is. The length is kept, integer specifiers keep their
  value, and on success the result is the argument list itself after the update.
\<close>

theorem parse_columns_updates_in_place:
  "fst (parse_columns columns header) =
     map (resolve header) (takeWhile (accepted header) columns)
       @ dropWhile (accepted header) columns \<and>
   length (fst (parse_columns columns header)) = length columns \<and>
   (\<forall>i n. i < length columns \<and> columns ! i = Index n \<longrightarrow>
      fst (parse_columns columns header) ! i = Index n) \<and>
   (\<forall>r. snd (parse_columns columns header) = Inr r \<longrightarrow>
      r = fst (parse_columns columns header) \<and> r = map (resolve header) columns)"
proof (intro conjI allI impI)
  show "fst (parse_columns columns header) =
     map (resolve header) (takeWhile (accepted header) columns)
       @ dropWhile (accepted header) columns"
    by (simp only: parse_columns_eq fst_conv resolved_prefix_eq)
next
  show "length (fst (parse_columns columns header)) = length columns"
    by (simp only: parse_columns_eq fst_conv length_takeWhile_mapped)
next
  fix i n
  assume "i < length columns \<and> columns ! i = Index n"
  then show "fst (parse_columns columns header) ! i = Index n"
    using nth_takeWhile_mapped [of i columns "resolve header" "passes header"]
    by (auto simp only: parse_columns_eq fst_conv resolve_simps)
next
  fix r
  assume "snd (parse_columns columns header) = Inr r"
  then have d: "dropWhile (passes header) columns = []"
    and r: "r = map (resolve header) columns"
    by (auto simp: parse_columns_eq split: list.splits)
  from d have "takeWhile (passes header) columns = columns"
    by (metis append_Nil2 takeWhile_dropWhile_id)
  with d r show "r = fst (parse_columns columns header)"
    by (simp only: parse_columns_eq fst_conv append_Nil2)
  from r show "r = map (resolve header) columns" .
qed

theorem parse_columns_updates_in_place_witness:
  "snd (parse_columns [Name ''b'', Index 0] (Some [''a'', ''b''])) = Inr [Index 1, Index 0] \<and>
   fst (parse_columns [Name ''b'', Index 0] (Some [''a'', ''b''])) = [Index 1, Index 0]"
proof -
  have sv: "snd (parse_columns [Name ''b'', Index 0] (Some [''a'', ''b'']))
              = Inr [Index 1, Index 0]"
    by (simp add: parse_columns_eq check_column_def)
  have "[Index 1, Index 0] = fst (parse_columns [Name ''b'', Index 0] (Some [''a'', ''b'']))"
    using parse_columns_updates_in_place [of "[Name ''b'', Index 0]" "Some [''a'', ''b'']"] sv
    by blast
  with sv show ?thesis by simp
qed

text \<open>C7 as stated fails: a name specifier is replaced in the caller's list.\<close>

theorem parse_columns_pure_counterexample:
  "fst (parse_columns [Name ''b''] (Some [''a'', ''b''])) \<noteq> [Name ''b'']"
  by (simp add: parse_columns_eq check_column_def)

section \<open>Termination and workspace cleanup\<close>

lemma slice_to_2 [simp]: "slice_to 2 xs = take 2 xs"
  by (simp add: slice_to_def)

lemma slice_from_2 [simp]: "slice_from 2 xs = drop 2 xs"
  by (simp add: slice_from_def)

lemma mergesort_loop_returns: "\<exists>r. mergesort_loop q columns 2 tmp_dir n s = Some r"
proof (induction "length q" arbitrary: q n s rule: less_induct)
  case less
  show ?case
  proof (cases "length q > 1")
    case False
    then show ?thesis
      by (subst mergesort_loop.simps) (simp split: list.splits)
  next
    case True
    then have shorter: "length (drop 2 q @ [f]) < length q" for f
      by simp
    show ?thesis
      using True less [OF shorter]
      by (subst mergesort_loop.simps) (simp add: Let_def split: sum.splits prod.splits)
  qed
qed

lemma mergesort_returns: "mergesort q columns 2 tmp_dir s \<noteq> None"
  using mergesort_loop_returns [of q columns tmp_dir 0 s] by (auto simp: mergesort_def)

lemma csvsort_try_returns:
  "\<exists>r. csvsort_try getsizeof tmp_dir input_filename columns output_filename max_size has_header s
     = Some r"
  unfolding csvsort_try_def
  by (auto simp: Let_def mergesort_returns split: sum.splits prod.splits option.splits)

lemma rmtree_clean:
  "d \<notin> dirs (rmtree d s)" "prefix (d @ ''/'') p \<Longrightarrow> files (rmtree d s) p = None"
  by (simp_all add: rmtree_def)

text \<open>
  C9. Whatever the arguments and the file system are, \<^verbatim>\<open>csvsort\<close> comes to an end, by a
  return or by an exception raised in the \<^verbatim>\<open>try\<close> body, and on both ways out the workspace
  directory is gone and no file remains below it.
\<close>

theorem workspace_removed:
  "\<exists>s' result.
     csvsort getsizeof pid input_filename columns output_filename max_size has_header s
       = Some (s', result) \<and>
     tmp_dir_of pid \<notin> dirs s' \<and>
     (\<forall>p. prefix (tmp_dir_of pid @ ''/'') p \<longrightarrow> files s' p = None)"
proof -
  obtain s1 result where
    "csvsort_try getsizeof (tmp_dir_of pid) input_filename columns output_filename max_size
       has_header (makedirs (tmp_dir_of pid) s) = Some (s1, result)"
    using csvsort_try_returns by (metis surj_pair)
  then have "csvsort getsizeof pid input_filename columns output_filename max_size has_header s
       = Some (rmtree (tmp_dir_of pid) s1, result)"
    by (simp add: csvsort_def)
  then show ?thesis
    using rmtree_clean by blast
qed

theorem workspace_removed_witness:
  "\<exists>s' result.
     csvsort getsizeof_min 42 ''in.csv'' [Index 0] ''out.csv'' 0 True
       (disk_with ''in.csv'' [[''k''], [''b''], [''a'']]) = Some (s', result) \<and>
     ''.csvsorter.42'' \<notin> dirs s' \<and>
     files s' ''.csvsorter.42/split0.csv'' = None"
proof -
  have t: "tmp_dir_of 42 = ''.csvsorter.42''"
    by code_simp
  have p: "prefix (''.csvsorter.42'' @ ''/'') ''.csvsorter.42/split0.csv''"
    by simp
  show ?thesis
    using workspace_removed [of getsizeof_min 42 "''in.csv''" "[Index 0]" "''out.csv''" 0 True
        "disk_with ''in.csv'' [[''k''], [''b''], [''a'']]"] p
    unfolding t by blast
qed

section \<open>The pipeline keeps every row\<close>

subsection \<open>File names\<close>

lemma str_nat_nonempty: "str_nat n \<noteq> []"
  by (subst str_nat.simps) simp

lemma digit_inj:
  assumes "a < 10" "b < 10" "''0123456789'' ! a = ''0123456789'' ! b"
  shows "a = b"
proof -
  have "distinct ''0123456789''" by simp
  moreover have "a < length ''0123456789''" "b < length ''0123456789''"
    using assms by simp_all
  ultimately show ?thesis
    using assms(3) nth_eq_iff_index_eq by blast
qed

lemma str_nat_inj: "str_nat n = str_nat m \<Longrightarrow> n = m"
proof (induction n arbitrary: m rule: str_nat.induct)
  case (1 n)
  show ?case
  proof (cases "n < 10")
    case small_n: True
    then have n: "str_nat n = [''0123456789'' ! n]"
      by (subst str_nat.simps) simp
    show ?thesis
    proof (cases "m < 10")
      case True
      then have "str_nat m = [''0123456789'' ! m]"
        by (subst str_nat.simps) simp
      with n "1.prems" show ?thesis
        using digit_inj [OF small_n True] by simp
    next
      case False
      then have "str_nat m = str_nat (m div 10) @ [''0123456789'' ! (m mod 10)]"
        by (subst str_nat.simps) simp
      with n "1.prems" have "str_nat (m div 10) = []"
        by (metis append1_eq_conv append_Nil)
      then show ?thesis using str_nat_nonempty by blast
    qed
  next
    case big_n: False
    then have n: "str_nat n = str_nat (n div 10) @ [''0123456789'' ! (n mod 10)]"
      by (subst str_nat.simps) simp
    show ?thesis
    proof (cases "m < 10")
      case True
      then have "str_nat m = [''0123456789'' ! m]"
        by (subst str_nat.simps) simp
      with n "1.prems" have "str_nat (n div 10) = []"
        by (metis append1_eq_conv append_Nil)
      then show ?thesis using str_nat_nonempty by blast
    next
      case False
      then have "str_nat m = str_nat (m div 10) @ [''0123456789'' ! (m mod 10)]"
        by (subst str_nat.simps) simp
      with n "1.prems" have hi: "str_nat (n div 10) = str_nat (m div 10)"
        and lo: "''0123456789'' ! (n mod 10) = ''0123456789'' ! (m mod 10)"
        by simp_all
      from hi have "n div 10 = m div 10"
        using "1.IH" [OF big_n] by blast
      moreover have "n mod 10 = m mod 10"
        using lo by (intro digit_inj) simp_all
      ultimately show ?thesis
        by (metis div_mult_mod_eq)
    qed
  qed
qed

lemma last_str_nat: "last (str_nat n) = ''0123456789'' ! (n mod 10)"
  by (subst str_nat.simps) simp

lemma last_str_nat_no_slash: "last (str_nat n) \<noteq> CHR ''/''"
proof -
  have "n mod 10 < length ''0123456789''" by simp
  then have "''0123456789'' ! (n mod 10) \<in> set ''0123456789''"
    by (rule nth_mem)
  then show ?thesis
    unfolding last_str_nat by auto
qed

lemma path_join_inj: "path_join d a = path_join d b \<longleftrightarrow> a = b"
  by (simp add: path_join_def)

lemma split_file_inj: "split_file d i = split_file d j \<longleftrightarrow> i = j"
  using str_nat_inj by (auto simp: split_file_def path_join_inj)

lemma merge_file_inj: "merge_file d i = merge_file d j \<longleftrightarrow> i = j"
  using str_nat_inj by (auto simp: merge_file_def path_join_inj)

lemma split_file_not_merge_file: "split_file d i \<noteq> merge_file d j"
  by (simp add: split_file_def merge_file_def path_join_inj)

lemma path_join_tmp_dir_of:
  "path_join (tmp_dir_of pid) name = tmp_dir_of pid @ ''/'' @ name"
proof -
  have "last (tmp_dir_of pid) = last (str_nat pid)"
    by (simp add: tmp_dir_of_def str_nat_nonempty)
  then show ?thesis
    using last_str_nat_no_slash [of pid] by (simp add: path_join_def tmp_dir_of_def)
qed

subsection \<open>Files\<close>

lemma files_open_w: "files (open_w f s) = (files s)(f \<mapsto> [])"
  by (simp add: open_w_def)

lemma dirs_open_w: "dirs (open_w f s) = dirs s"
  by (simp add: open_w_def)

lemma files_writerow: "files (writerow f r s) = (files s)(f \<mapsto> content s f @ [r])"
  by (simp add: writerow_def content_def)

lemma content_upd: "content (s\<lparr>files := m\<rparr>) f = (case m f of None \<Rightarrow> [] | Some rs \<Rightarrow> rs)"
  by (simp add: content_def)

lemma files_writerows:
  "files (writerows f rows s) =
     (if rows = [] then files s else (files s)(f \<mapsto> content s f @ rows))"
proof (induction rows arbitrary: s)
  case Nil
  show ?case by simp
next
  case (Cons r rows)
  show ?case
    by (auto simp add: Cons.IH files_writerow content_def)
qed

lemma files_rewrite: "files (writerows f rows (open_w f s)) = (files s)(f \<mapsto> rows)"
  by (simp add: files_writerows files_open_w content_def)

lemma dirs_writerows: "dirs (writerows f rows s) = dirs s"
  by (induction rows arbitrary: s) (simp_all add: writerow_def)

subsection \<open>The merge of streams\<close>

lemma least_head_None: "least_head ss = None \<Longrightarrow> concat ss = []"
  by (induction ss) (auto split: option.splits if_splits)

lemma mset_concat_take_head:
  "i < length ss \<Longrightarrow> ss ! i \<noteq> [] \<Longrightarrow>
   mset (concat ss) = add_mset (hd (ss ! i)) (mset (concat (ss[i := tl (ss ! i)])))"
proof (induction ss arbitrary: i)
  case Nil
  then show ?case by simp
next
  case (Cons s ss)
  show ?case
  proof (cases i)
    case 0
    with Cons.prems show ?thesis by (cases s) simp_all
  next
    case (Suc j)
    with Cons show ?thesis by simp
  qed
qed

lemma mset_heapq_merge: "mset (heapq_merge ss) = mset (concat ss)"
proof (induction ss rule: heapq_merge.induct)
  case (1 streams)
  show ?case
  proof (cases "least_head streams")
    case None
    then show ?thesis
      by (subst heapq_merge.simps) (simp add: least_head_None)
  next
    case (Some i)
    then have "i < length streams" "streams ! i \<noteq> []"
      using least_head_Some by blast+
    then show ?thesis
      using "1.IH" [OF Some] Some
      by (subst heapq_merge.simps) (simp add: mset_concat_take_head [of i streams])
  qed
qed

lemma least_head_None_all: "least_head ss = None \<Longrightarrow> i < length ss \<Longrightarrow> ss ! i = []"
proof (induction ss arbitrary: i)
  case Nil
  then show ?case by simp
next
  case (Cons s ss)
  then show ?case
    by (cases i) (auto split: option.splits if_splits)
qed

lemma subseq_heapq_merge: "i < length ss \<Longrightarrow> subseq (ss ! i) (heapq_merge ss)"
proof (induction ss rule: heapq_merge.induct)
  case (1 streams)
  show ?case
  proof (cases "least_head streams")
    case None
    then have "streams ! i = []"
      using "1.prems" by (rule least_head_None_all)
    then show ?thesis by simp
  next
    case (Some j)
    then have j: "j < length streams" "streams ! j \<noteq> []"
      using least_head_Some by blast+
    let ?rest = "streams[j := tl (streams ! j)]"
    have unfold: "heapq_merge streams = hd (streams ! j) # heapq_merge ?rest"
      using Some by (subst heapq_merge.simps) simp
    have ih: "subseq (?rest ! i) (heapq_merge ?rest)"
      using "1.IH" [OF Some] "1.prems" by simp
    show ?thesis
    proof (cases "i = j")
      case True
      then have "?rest ! i = tl (streams ! j)"
        using j by simp
      then have "subseq (hd (streams ! j) # tl (streams ! j)) (heapq_merge streams)"
        using ih unfolding unfold by simp
      then show ?thesis
        using True j by simp
    next
      case False
      then have "?rest ! i = streams ! i"
        by simp
      then show ?thesis
        using ih unfolding unfold by (simp add: list_emb_Cons)
    qed
  qed
qed

subsection \<open>The splitter\<close>

lemma content_writerow:
  "content (writerow f r s) g = (if g = f then content s f @ [r] else content s g)"
  by (simp add: content_def files_writerow)

lemma content_open_w: "content (open_w f s) g = (if g = f then [] else content s g)"
  by (simp add: content_def files_open_w)

lemma dirs_writerow: "dirs (writerow f r s) = dirs s"
  by (simp add: writerow_def)

lemma split_files_distinct: "distinct (map (split_file tmp_dir) [0..<n])"
  by (simp add: distinct_map inj_on_def split_file_inj)

lemma split_file_fresh: "split_file tmp_dir n \<notin> set (map (split_file tmp_dir) [0..<n])"
  by (auto simp: split_file_inj)

lemma csvsplit_loop_step:
  "csvsplit_loop getsizeof max_size tmp_dir (r # reader) writer current_size fns s =
     (let filename = (case writer of None \<Rightarrow> split_file tmp_dir (length fns) | Some f \<Rightarrow> f);
          fns1 = (case writer of None \<Rightarrow> fns @ [filename] | Some f \<Rightarrow> fns);
          s2 = writerow filename r (case writer of None \<Rightarrow> open_w filename s | Some f \<Rightarrow> s)
      in csvsplit_loop getsizeof max_size tmp_dir reader
           (if int (current_size + getsizeof r) > max_size then None else Some filename)
           (if int (current_size + getsizeof r) > max_size then 0
            else current_size + getsizeof r)
           fns1 s2)"
  by (simp add: Let_def split_file_def split: option.splits)

lemma concat_map_snoc_changed:
  assumes "f \<notin> set xs" "\<forall>g. g \<noteq> f \<longrightarrow> c' g = c g"
  shows "concat (map c' (xs @ [f])) = concat (map c xs) @ c' f"
  using assms by (induction xs) auto

lemma csvsplit_loop_inv:
  assumes "fns = map (split_file tmp_dir) [0..<length fns]"
    and "\<forall>f. writer = Some f \<longrightarrow> fns \<noteq> [] \<and> f = last fns"
    and "csvsplit_loop getsizeof max_size tmp_dir reader writer current_size fns s = (s', fns')"
  shows "fns' = map (split_file tmp_dir) [0..<length fns'] \<and>
         length fns \<le> length fns' \<and>
         concat (map (content s') fns') = concat (map (content s) fns) @ reader \<and>
         (\<forall>p. p \<notin> set fns' \<longrightarrow> files s' p = files s p) \<and>
         dirs s' = dirs s"
  using assms
proof (induction reader arbitrary: writer current_size fns s)
  case Nil
  then show ?case by simp
next
  case (Cons r reader)
  define filename where
    "filename = (case writer of None \<Rightarrow> split_file tmp_dir (length fns) | Some f \<Rightarrow> f)"
  define fns1 where "fns1 = (case writer of None \<Rightarrow> fns @ [filename] | Some f \<Rightarrow> fns)"
  define s2 where
    "s2 = writerow filename r (case writer of None \<Rightarrow> open_w filename s | Some f \<Rightarrow> s)"
  define writer1 where
    "writer1 = (if int (current_size + getsizeof r) > max_size then None else Some filename)"
  define size1 where
    "size1 = (if int (current_size + getsizeof r) > max_size then 0
              else current_size + getsizeof r)"
  have run: "csvsplit_loop getsizeof max_size tmp_dir reader writer1 size1 fns1 s2 = (s', fns')"
    using Cons.prems(3)
    by (simp only: csvsplit_loop_step Let_def filename_def fns1_def s2_def writer1_def size1_def)
  have dist: "distinct fns"
    using Cons.prems(1) split_files_distinct [of tmp_dir "length fns"] by simp
  have p1: "fns1 = map (split_file tmp_dir) [0..<length fns1]"
    using Cons.prems(1) by (cases writer) (simp_all add: fns1_def filename_def)
  have p2: "fns1 \<noteq> [] \<and> filename = last fns1"
    using Cons.prems(2) by (cases writer) (simp_all add: fns1_def filename_def)
  have p3: "concat (map (content s2) fns1) = concat (map (content s) fns) @ [r]"
  proof (cases writer)
    case None
    have fresh: "filename \<notin> set fns"
      using Cons.prems(1) split_file_fresh [of tmp_dir "length fns"] None
      by (simp add: filename_def)
    have "concat (map (content s2) (fns @ [filename]))
            = concat (map (content s) fns) @ content s2 filename"
      by (rule concat_map_snoc_changed [OF fresh])
         (simp add: s2_def None content_writerow content_open_w)
    then show ?thesis
      by (simp add: fns1_def None s2_def content_writerow content_open_w)
  next
    case (Some f)
    then have f: "fns \<noteq> []" "f = last fns" "filename = f" "fns1 = fns"
      using Cons.prems(2) by (simp_all add: filename_def fns1_def)
    then have split: "fns = butlast fns @ [f]" by simp
    have fresh: "f \<notin> set (butlast fns)"
      using dist split by (metis distinct_append distinct.simps(2) disjoint_iff list.set_intros(1))
    have a: "concat (map (content s2) (butlast fns @ [f]))
            = concat (map (content s) (butlast fns)) @ content s2 f"
      by (rule concat_map_snoc_changed [OF fresh]) (simp add: s2_def Some f content_writerow)
    have b: "concat (map (content s) (butlast fns @ [f]))
            = concat (map (content s) (butlast fns)) @ content s f"
      by simp
    have c: "content s2 f = content s f @ [r]"
      by (simp add: s2_def Some f content_writerow)
    show ?thesis
      using a b c split f(4) by (metis append.assoc)
  qed
  have p5: "\<forall>p. p \<notin> set fns1 \<longrightarrow> files s2 p = files s p"
    using p2 by (cases writer) (auto simp: s2_def fns1_def files_writerow files_open_w)
  have p6: "dirs s2 = dirs s"
    by (cases writer) (simp_all add: s2_def dirs_writerow dirs_open_w)
  have p7: "length fns \<le> length fns1"
    by (cases writer) (simp_all add: fns1_def)
  have w: "\<forall>f. writer1 = Some f \<longrightarrow> fns1 \<noteq> [] \<and> f = last fns1"
    using p2 by (simp add: writer1_def)
  note ih = Cons.IH [OF p1 w run]
  have sub: "set fns1 \<subseteq> set fns'"
  proof -
    have "set fns1 = split_file tmp_dir ` {0..<length fns1}"
      using p1 by (metis list.set_map set_upt)
    moreover have "set fns' = split_file tmp_dir ` {0..<length fns'}"
      using ih by (metis list.set_map set_upt)
    ultimately show ?thesis using ih by auto
  qed
  show ?case
    using ih p3 p5 p6 p7 sub by auto
qed

lemma csvsplit_inv:
  assumes "csvsplit getsizeof reader max_size tmp_dir s = (s', fns)"
  shows "fns = map (split_file tmp_dir) [0..<length fns] \<and>
         concat (map (content s') fns) = reader \<and>
         (\<forall>p. p \<notin> set fns \<longrightarrow> files s' p = files s p) \<and>
         dirs s' = dirs s"
  using csvsplit_loop_inv [of "[]" tmp_dir None getsizeof "max_size * 1024 * 1024" reader 0 s s' fns]
    assms
  by (simp add: csvsplit_def)

subsection \<open>The chunk sorter\<close>

lemma memorysort_Inr:
  assumes "memorysort f columns s = (s', Inr u)"
  shows "\<exists>rows k. files s f = Some rows \<and>
           (\<forall>r \<in> set rows. sort_key_of columns r = Inr (k r)) \<and>
           files s' = (files s)(f \<mapsto> sort_key k rows) \<and> dirs s' = dirs s"
proof -
  obtain rows where rows: "files s f = Some rows"
    using assms by (auto simp: memorysort_def read_rows_def split: option.splits sum.splits)
  then obtain sorted_rows where sorted: "sort_rows columns rows = Inr sorted_rows"
    and s': "s' = writerows f sorted_rows (open_w f s)"
    using assms by (auto simp: memorysort_def read_rows_def split: sum.splits)
  from sort_rows_Inr [OF sorted] obtain k
    where "\<forall>r \<in> set rows. sort_key_of columns r = Inr (k r)" "sorted_rows = sort_key k rows"
    by blast
  with rows s' show ?thesis
    by (auto simp: files_rewrite dirs_writerows dirs_open_w)
qed

lemma memorysort_each_inv:
  assumes "memorysort_each fns columns s = (s', Inr u)" "distinct fns"
  shows "(\<forall>f \<in> set fns. files s' f \<noteq> None \<and> mset (content s' f) = mset (content s f)) \<and>
         (\<forall>p. p \<notin> set fns \<longrightarrow> files s' p = files s p) \<and> dirs s' = dirs s"
  using assms
proof (induction fns arbitrary: s)
  case Nil
  then show ?case by simp
next
  case (Cons f fns)
  from Cons.prems(1) obtain s1 u1 where one: "memorysort f columns s = (s1, Inr u1)"
    and rest: "memorysort_each fns columns s1 = (s', Inr u)"
    by (auto split: prod.splits sum.splits)
  from memorysort_Inr [OF one] obtain rows k where
    rows: "files s f = Some rows"
    and keys: "\<forall>r \<in> set rows. sort_key_of columns r = Inr (k r)"
    and s1: "files s1 = (files s)(f \<mapsto> sort_key k rows)"
    and d1: "dirs s1 = dirs s"
    by blast
  from Cons.prems(2) have nf: "f \<notin> set fns" and dist: "distinct fns"
    by simp_all
  note ih = Cons.IH [OF rest dist]
  have "files s' f = files s1 f"
    using ih nf by blast
  then have here: "files s' f \<noteq> None \<and> mset (content s' f) = mset (content s f)"
    using rows s1 by (simp add: content_def)
  have there: "\<forall>g \<in> set fns. files s' g \<noteq> None \<and> mset (content s' g) = mset (content s g)"
  proof
    fix g assume g: "g \<in> set fns"
    then have "g \<noteq> f" using nf by blast
    then have "content s1 g = content s g"
      using s1 by (simp add: content_def)
    with ih g show "files s' g \<noteq> None \<and> mset (content s' g) = mset (content s g)"
      by simp
  qed
  have other: "\<forall>p. p \<notin> set (f # fns) \<longrightarrow> files s' p = files s p"
    using ih s1 by auto
  show ?case
    using here there other ih d1 by simp
qed

subsection \<open>The merger\<close>

lemma mergesort_loop_step:
  "mergesort_loop (a # b # rest) columns 2 tmp_dir n s =
     (let out = merge_file tmp_dir n; s1 = open_w out s
      in case read_all [a, b] s1 of
           Inl e \<Rightarrow> Some (s1, Inl e)
         | Inr streams \<Rightarrow>
             (case remove_all [a, b] (writerows out (heapq_merge streams) s1) of
                (s3, Inl e) \<Rightarrow> Some (s3, Inl e)
              | (s3, Inr _) \<Rightarrow>
                  mergesort_loop (rest @ [out]) columns 2 tmp_dir (n + 1) s3))"
  by (subst mergesort_loop.simps) (simp add: merge_file_def Let_def)

lemma mergesort_loop_inv:
  assumes "q \<noteq> []" "distinct q" "\<forall>f \<in> set q. files s f \<noteq> None"
    and "\<forall>f \<in> set q. \<forall>m \<ge> n. f \<noteq> merge_file tmp_dir m"
  shows "\<exists>s' f. mergesort_loop q columns 2 tmp_dir n s = Some (s', Inr f) \<and>
           files s' f \<noteq> None \<and>
           mset (content s' f) = mset (concat (map (content s) q)) \<and>
           (f \<in> set q \<or> (\<exists>m. f = merge_file tmp_dir m)) \<and>
           dirs s' = dirs s \<and>
           (\<forall>p. p \<notin> set q \<and> (\<forall>m. p \<noteq> merge_file tmp_dir m) \<longrightarrow> files s' p = files s p) \<and>
           (\<forall>g \<in> set q. subseq (content s g) (content s' f))"
  using assms
proof (induction "length q" arbitrary: q n s rule: less_induct)
  case less
  show ?case
  proof (cases "length q > 1")
    case False
    with less.prems(1) obtain f where q: "q = [f]"
      by (cases q) auto
    have "mergesort_loop q columns 2 tmp_dir n s = Some (s, Inr f)"
      unfolding q by (subst mergesort_loop.simps) simp
    then show ?thesis
      using less.prems(3) q by simp
  next
    case True
    then obtain a b rest where q: "q = a # b # rest"
      by (cases q; cases "tl q") auto
    define out where "out = merge_file tmp_dir n"
    have out_new: "out \<notin> set q"
      using less.prems(4) by (auto simp: out_def)
    then have ne: "a \<noteq> out" "b \<noteq> out" "a \<noteq> b" "out \<notin> set rest" "a \<notin> set rest" "b \<notin> set rest"
      using less.prems(2) q by auto
    obtain A B where A: "files s a = Some A" and B: "files s b = Some B"
      using less.prems(3) q by auto
    then have cA: "content s a = A" and cB: "content s b = B"
      by (simp_all add: content_def)
    define merged where "merged = heapq_merge [A, B]"
    have rd: "read_all [a, b] (open_w out s) = Inr [A, B]"
      using ne A B by (simp add: read_rows_def files_open_w)
    have wr: "files (writerows out merged (open_w out s)) = (files s)(out \<mapsto> merged)"
      by (rule files_rewrite)
    have "\<exists>s3. remove_all [a, b] (writerows out merged (open_w out s)) = (s3, Inr ()) \<and>
            files s3 = (files s)(out \<mapsto> merged, a := None, b := None) \<and> dirs s3 = dirs s"
    proof -
      let ?s2 = "writerows out merged (open_w out s)"
      let ?s2a = "?s2\<lparr>files := (files ?s2)(a := None)\<rparr>"
      let ?s2b = "?s2a\<lparr>files := (files ?s2a)(b := None)\<rparr>"
      have fa: "files ?s2 a = Some A"
        unfolding wr using ne(1) A by simp
      have r1: "remove a ?s2 = Inr ?s2a"
        unfolding remove_def fa by simp
      have fb: "files ?s2a b = Some B"
        using ne(2,3) B by (simp add: wr)
      have r2: "remove b ?s2a = Inr ?s2b"
        unfolding remove_def fb by simp
      have "remove_all [a, b] ?s2 = (?s2b, Inr ())"
        by (simp only: remove_all.simps r1 r2 sum.case)
      moreover have "files ?s2b = (files s)(out \<mapsto> merged, a := None, b := None)"
        by (simp add: wr)
      moreover have "dirs ?s2b = dirs s"
        by (simp add: dirs_writerows dirs_open_w)
      ultimately show ?thesis by blast
    qed
    then obtain s3 where
      rm: "remove_all [a, b] (writerows out merged (open_w out s)) = (s3, Inr ())"
      and f3: "files s3 = (files s)(out \<mapsto> merged, a := None, b := None)"
      and d3: "dirs s3 = dirs s"
      by blast
    have step: "mergesort_loop q columns 2 tmp_dir n s =
                mergesort_loop (rest @ [out]) columns 2 tmp_dir (n + 1) s3"
      unfolding q
      by (simp only: mergesort_loop_step Let_def out_def [symmetric] rd sum.case
            merged_def [symmetric] rm prod.case)
    have len: "length (rest @ [out]) < length q"
      using q by simp
    have i1: "rest @ [out] \<noteq> []" by simp
    have i2: "distinct (rest @ [out])"
      using less.prems(2) q ne by simp
    have i3: "\<forall>f \<in> set (rest @ [out]). files s3 f \<noteq> None"
      using less.prems(3) q ne by (auto simp: f3)
    have i4: "\<forall>f \<in> set (rest @ [out]). \<forall>m \<ge> n + 1. f \<noteq> merge_file tmp_dir m"
      using less.prems(4) q by (auto simp: out_def merge_file_inj)
    from less.hyps [OF len i1 i2 i3 i4] obtain s' f where
      r: "mergesort_loop (rest @ [out]) columns 2 tmp_dir (n + 1) s3 = Some (s', Inr f)"
      and ex: "files s' f \<noteq> None"
      and ms: "mset (content s' f) = mset (concat (map (content s3) (rest @ [out])))"
      and wh: "f \<in> set (rest @ [out]) \<or> (\<exists>m. f = merge_file tmp_dir m)"
      and dr: "dirs s' = dirs s3"
      and ot: "\<forall>p. p \<notin> set (rest @ [out]) \<and> (\<forall>m. p \<noteq> merge_file tmp_dir m)
                 \<longrightarrow> files s' p = files s3 p"
      and sb: "\<forall>g \<in> set (rest @ [out]). subseq (content s3 g) (content s' f)"
      by (elim exE conjE) (rule that; assumption)
    have same: "map (content s3) rest = map (content s) rest"
      using ne by (intro map_cong) (auto simp: content_def f3)
    have co: "content s3 out = merged"
      using ne by (simp add: content_def f3)
    then have "mset (concat (map (content s3) (rest @ [out])))
                 = mset (concat (map (content s) rest)) + mset merged"
      by (simp add: same)
    also have "\<dots> = mset (concat (map (content s) q))"
      by (simp add: merged_def mset_heapq_merge q cA cB)
    finally have ms': "mset (content s' f) = mset (concat (map (content s) q))"
      using ms by simp
    have wh': "f \<in> set q \<or> (\<exists>m. f = merge_file tmp_dir m)"
      using wh q by (auto simp: out_def)
    have dr': "dirs s' = dirs s"
      using dr d3 by simp
    have ot': "\<forall>p. p \<notin> set q \<and> (\<forall>m. p \<noteq> merge_file tmp_dir m) \<longrightarrow> files s' p = files s p"
    proof (intro allI impI)
      fix p assume p: "p \<notin> set q \<and> (\<forall>m. p \<noteq> merge_file tmp_dir m)"
      then have "p \<noteq> out" "p \<noteq> a" "p \<noteq> b" "p \<notin> set (rest @ [out])"
        using q by (auto simp: out_def)
      then show "files s' p = files s p"
        using ot p by (simp add: f3)
    qed
    have sb': "\<forall>g \<in> set q. subseq (content s g) (content s' f)"
    proof
      fix g assume g: "g \<in> set q"
      have mo: "subseq merged (content s' f)"
        using sb co by simp
      have "subseq A merged" "subseq B merged"
        using subseq_heapq_merge [of 0 "[A, B]"] subseq_heapq_merge [of 1 "[A, B]"]
        by (simp_all add: merged_def)
      then have ab: "subseq A (content s' f)" "subseq B (content s' f)"
        using mo by (blast intro: list_emb_trans)+
      show "subseq (content s g) (content s' f)"
      proof (cases "g \<in> set rest")
        case True
        then have "content s3 g = content s g"
          using ne by (auto simp: content_def f3)
        then show ?thesis
          using sb True by auto
      next
        case False
        then have "g = a \<or> g = b"
          using g q by simp
        then show ?thesis
          using ab cA cB by auto
      qed
    qed
    show ?thesis
      using step r ex ms' wh' dr' ot' sb' by simp
  qed
qed

lemma mergesort_loop_empty:
  "mergesort_loop [] columns nway tmp_dir n s = Some (s, Inl IndexError)"
  by (subst mergesort_loop.simps) simp

subsection \<open>The whole run\<close>

lemma mset_concat_map_cong:
  "\<forall>f \<in> set fns. mset (c' f) = mset (c f) \<Longrightarrow>
   mset (concat (map c' fns)) = mset (concat (map c fns))"
  by (induction fns) simp_all

lemma final_stage:
  "(let out = (if output_filename = [] then input_filename else output_filename);
        s4 = open_w out s3;
        s5 = (if truthy header then writerow out (the header) s4 else s4)
    in case read_rows sorted_filename s5 of
         Inl e \<Rightarrow> Some (s5, Inl e)
       | Inr rows \<Rightarrow> Some (writerows out rows s5, Inr ())) =
   (case read_rows sorted_filename
           (writerows (out_path input_filename output_filename) (header_rows header)
              (open_w (out_path input_filename output_filename) s3)) of
      Inl e \<Rightarrow>
        Some (writerows (out_path input_filename output_filename) (header_rows header)
                (open_w (out_path input_filename output_filename) s3), Inl e)
    | Inr rows \<Rightarrow>
        Some (writerows (out_path input_filename output_filename) rows
                (writerows (out_path input_filename output_filename) (header_rows header)
                   (open_w (out_path input_filename output_filename) s3)), Inr ()))"
proof -
  have "(if truthy header
         then writerow (out_path input_filename output_filename) (the header)
                (open_w (out_path input_filename output_filename) s3)
         else open_w (out_path input_filename output_filename) s3) =
        writerows (out_path input_filename output_filename) (header_rows header)
          (open_w (out_path input_filename output_filename) s3)"
    by (simp add: header_rows_def)
  then show ?thesis
    by (simp only: Let_def out_path_def [symmetric])
qed

lemma csvsort_try_stages:
  assumes "csvsort_try getsizeof tmp_dir input_filename columns output_filename max_size
             has_header s = Some (s', Inr u)"
    and "read_rows input_filename s = Inr input_rows"
    and "take_header has_header input_rows = Inr (header, rows)"
  shows "\<exists>cols s1 fns s2 s3 f R.
           snd (parse_columns columns header) = Inr cols \<and>
           csvsplit getsizeof rows max_size tmp_dir s = (s1, fns) \<and>
           memorysort_each fns cols s1 = (s2, Inr ()) \<and>
           mergesort fns cols 2 tmp_dir s2 = Some (s3, Inr f) \<and>
           read_rows f (writerows (out_path input_filename output_filename)
                          (header_rows header)
                          (open_w (out_path input_filename output_filename) s3)) = Inr R \<and>
           s' = writerows (out_path input_filename output_filename) R
                  (writerows (out_path input_filename output_filename) (header_rows header)
                     (open_w (out_path input_filename output_filename) s3))"
proof -
  obtain cols where cols: "snd (parse_columns columns header) = Inr cols"
    using assms by (cases "snd (parse_columns columns header)") (simp_all add: csvsort_try_def)
  obtain s1 fns where split: "csvsplit getsizeof rows max_size tmp_dir s = (s1, fns)"
    by (cases "csvsplit getsizeof rows max_size tmp_dir s") blast
  obtain s2 r2 where ms: "memorysort_each fns cols s1 = (s2, r2)"
    by (cases "memorysort_each fns cols s1") blast
  have a: "(case r2 of
              Inl e \<Rightarrow> Some (s2, Inl e)
            | Inr _ \<Rightarrow>
                (case mergesort fns cols 2 tmp_dir s2 of
                   None \<Rightarrow> None
                 | Some (s3, Inl e) \<Rightarrow> Some (s3, Inl e)
                 | Some (s3, Inr sorted_filename) \<Rightarrow>
                     (let out = (if output_filename = [] then input_filename
                                 else output_filename);
                          s4 = open_w out s3;
                          s5 = (if truthy header then writerow out (the header) s4 else s4)
                      in case read_rows sorted_filename s5 of
                           Inl e \<Rightarrow> Some (s5, Inl e)
                         | Inr rows \<Rightarrow> Some (writerows out rows s5, Inr ()))))
           = Some (s', Inr u)"
    using assms(1) by (simp add: csvsort_try_def assms(2,3) cols split ms)
  then obtain u2 where r2: "r2 = Inr u2"
    by (cases r2) simp_all
  from a r2 obtain s3 r3 where mg: "mergesort fns cols 2 tmp_dir s2 = Some (s3, r3)"
    by (cases "mergesort fns cols 2 tmp_dir s2") auto
  from a r2 mg obtain f where r3: "r3 = Inr f"
    by (cases r3) simp_all
  let ?out = "out_path input_filename output_filename"
  let ?s5 = "writerows ?out (header_rows header) (open_w ?out s3)"
  have b: "(case read_rows f ?s5 of
              Inl e \<Rightarrow> Some (?s5, Inl e)
            | Inr rows \<Rightarrow> Some (writerows ?out rows ?s5, Inr ())) = Some (s', Inr u)"
    using a unfolding r2 mg r3
    by (simp only: sum.case option.case prod.case final_stage)
  then obtain R where R: "read_rows f ?s5 = Inr R"
    by (cases "read_rows f ?s5") simp_all
  with b have "s' = writerows ?out R ?s5"
    by simp
  with cols split ms r2 mg r3 R show ?thesis
    by (intro exI [of _ cols] exI [of _ s1] exI [of _ fns] exI [of _ s2] exI [of _ s3]
          exI [of _ f] exI [of _ R]) simp
qed

lemma files_out_written:
  "files (writerows out R (writerows out H (open_w out s))) out = Some (H @ R)"
  by (cases "R = []"; cases "H = []")
     (simp_all add: files_writerows files_open_w content_def)

lemma files_header_written:
  "f \<noteq> out \<Longrightarrow> files (writerows out H (open_w out s)) f = files s f"
  by (simp add: files_writerows files_open_w)

lemma files_Some_content: "files s f \<noteq> None \<Longrightarrow> files s f = Some (content s f)"
  by (auto simp: content_def)

lemma csvsort_try_rows:
  assumes run: "csvsort_try getsizeof tmp_dir input_filename columns output_filename max_size
             has_header s = Some (s', Inr u)"
    and rd: "read_rows input_filename s = Inr input_rows"
    and hd: "take_header has_header input_rows = Inr (header, rows)"
    and ws: "\<forall>name. out_path input_filename output_filename \<noteq> path_join tmp_dir name"
  shows "\<exists>out_rows.
           files s' (out_path input_filename output_filename)
             = Some (header_rows header @ out_rows) \<and>
           mset out_rows = mset rows"
proof -
  let ?out = "out_path input_filename output_filename"
  obtain cols s1 fns s2 s3 f R where
    split: "csvsplit getsizeof rows max_size tmp_dir s = (s1, fns)"
    and ms: "memorysort_each fns cols s1 = (s2, Inr ())"
    and mg: "mergesort fns cols 2 tmp_dir s2 = Some (s3, Inr f)"
    and R: "read_rows f (writerows ?out (header_rows header) (open_w ?out s3)) = Inr R"
    and s': "s' = writerows ?out R (writerows ?out (header_rows header) (open_w ?out s3))"
    using csvsort_try_stages [OF run rd hd]
    by (elim exE conjE) (rule that; assumption)
  from csvsplit_inv [OF split] have
    names: "fns = map (split_file tmp_dir) [0..<length fns]"
    and all: "concat (map (content s1) fns) = rows"
    by simp_all
  have dist: "distinct fns"
    using names split_files_distinct [of tmp_dir "length fns"] by simp
  from memorysort_each_inv [OF ms dist] have
    sorted: "\<forall>g \<in> set fns. files s2 g \<noteq> None \<and> mset (content s2 g) = mset (content s1 g)"
    by simp
  have ne: "fns \<noteq> []"
    using mg by (auto simp: mergesort_def mergesort_loop_empty)
  have ex: "\<forall>g \<in> set fns. files s2 g \<noteq> None"
    using sorted by blast
  have nm: "\<forall>g \<in> set fns. \<forall>m \<ge> 0. g \<noteq> merge_file tmp_dir m"
  proof (intro ballI allI impI)
    fix g m assume "g \<in> set fns"
    then have "g \<in> set (map (split_file tmp_dir) [0..<length fns])"
      using names by simp
    then obtain i where "g = split_file tmp_dir i"
      by auto
    then show "g \<noteq> merge_file tmp_dir m"
      by (simp add: split_file_not_merge_file)
  qed
  obtain s3' f' where
    mg': "mergesort_loop fns cols 2 tmp_dir 0 s2 = Some (s3', Inr f')"
    and exf: "files s3' f' \<noteq> None"
    and msf: "mset (content s3' f') = mset (concat (map (content s2) fns))"
    and wh: "f' \<in> set fns \<or> (\<exists>m. f' = merge_file tmp_dir m)"
    using mergesort_loop_inv [OF ne dist ex nm, of cols]
    by (elim exE conjE) (rule that; assumption)
  have eq: "s3' = s3" "f' = f"
    using mg mg' by (simp_all add: mergesort_def)
  have "mset (concat (map (content s2) fns)) = mset (concat (map (content s1) fns))"
    by (rule mset_concat_map_cong) (use sorted in blast)
  then have msR: "mset (content s3 f) = mset rows"
    using msf all eq by simp
  have "\<exists>name. f = path_join tmp_dir name"
  proof -
    from wh eq have "f \<in> set (map (split_file tmp_dir) [0..<length fns]) \<or>
                     (\<exists>m. f = merge_file tmp_dir m)"
      using names by simp
    then show ?thesis
      by (auto simp: split_file_def merge_file_def)
  qed
  then have fo: "f \<noteq> ?out"
    using ws by blast
  have "files (writerows ?out (header_rows header) (open_w ?out s3)) f = Some (content s3 f)"
    using files_header_written [OF fo] files_Some_content exf eq by simp
  then have "R = content s3 f"
    using R by (simp add: read_rows_def)
  then have "mset R = mset rows"
    using msR by simp
  moreover have "files s' ?out = Some (header_rows header @ R)"
    unfolding s' by (rule files_out_written)
  ultimately show ?thesis by blast
qed

lemma not_workspace_file:
  "\<not> prefix (tmp_dir_of pid @ ''/'') p \<Longrightarrow> p \<noteq> path_join (tmp_dir_of pid) name"
  by (auto simp: path_join_tmp_dir_of)

lemma files_rmtree_outside: "\<not> prefix (d @ ''/'') p \<Longrightarrow> files (rmtree d s) p = files s p"
  by (simp add: rmtree_def)

lemma read_rows_makedirs: "read_rows f (makedirs d s) = read_rows f s"
  by (simp add: read_rows_def makedirs_def)

lemma csvsort_Some:
  assumes "csvsort getsizeof pid input_filename columns output_filename max_size has_header s
             = Some (s', result)"
  shows "\<exists>s1. csvsort_try getsizeof (tmp_dir_of pid) input_filename columns output_filename
                 max_size has_header (makedirs (tmp_dir_of pid) s) = Some (s1, result) \<and>
              s' = rmtree (tmp_dir_of pid) s1"
  using assms by (auto simp: csvsort_def Let_def split: option.splits)

lemma out_path_outside:
  "\<not> prefix d input_filename \<Longrightarrow> \<not> prefix d output_filename \<Longrightarrow>
   \<not> prefix d (out_path input_filename output_filename)"
  by (simp add: out_path_def)

text \<open>
  C4. When \<^verbatim>\<open>csvsort\<close> returns, the output file holds the header row (if it was kept and is
  not empty) followed by rows that are, as a multiset, exactly the data rows of the input:
  the split, the sort of each chunk and every merge pass drop, duplicate and change
  nothing. The input and the output file lie outside the workspace directory.
\<close>

theorem rows_preserved:
  assumes "csvsort getsizeof pid input_filename columns output_filename max_size has_header s
             = Some (s', Inr u)"
    and "read_rows input_filename s = Inr input_rows"
    and "take_header has_header input_rows = Inr (header, rows)"
    and "\<not> prefix (tmp_dir_of pid @ ''/'') input_filename"
    and "\<not> prefix (tmp_dir_of pid @ ''/'') output_filename"
  shows "\<exists>out_rows.
           files s' (out_path input_filename output_filename)
             = Some (header_rows header @ out_rows) \<and>
           mset out_rows = mset rows"
proof -
  let ?out = "out_path input_filename output_filename"
  let ?tmp = "tmp_dir_of pid"
  obtain s1 where
    run: "csvsort_try getsizeof ?tmp input_filename columns output_filename max_size
            has_header (makedirs ?tmp s) = Some (s1, Inr u)"
    and s': "s' = rmtree ?tmp s1"
    using csvsort_Some [OF assms(1)] by (elim exE conjE) (rule that; assumption)
  have out: "\<not> prefix (?tmp @ ''/'') ?out"
    using assms(4,5) by (rule out_path_outside)
  then have ws: "\<forall>name. ?out \<noteq> path_join ?tmp name"
    using not_workspace_file by blast
  have rd: "read_rows input_filename (makedirs ?tmp s) = Inr input_rows"
    using assms(2) by (simp only: read_rows_makedirs)
  obtain out_rows where
    "files s1 ?out = Some (header_rows header @ out_rows)" "mset out_rows = mset rows"
    using csvsort_try_rows [OF run rd assms(3) ws] by (elim exE conjE) (rule that; assumption)
  moreover have "files s' ?out = files s1 ?out"
    unfolding s' using out by (rule files_rmtree_outside)
  ultimately show ?thesis by simp
qed

theorem rows_preserved_witness:
  "\<exists>s' out_rows.
     csvsort getsizeof_min 42 ''in.csv'' [Index 0] ''out.csv'' 0 True
       (disk_with ''in.csv'' [[''k''], [''c''], [''a''], [''b'']]) = Some (s', Inr ()) \<and>
     files s' ''out.csv'' = Some ([[''k'']] @ out_rows) \<and>
     mset out_rows = mset [[''c''], [''a''], [''b'']]"
proof -
  let ?disk = "disk_with ''in.csv'' [[''k''], [''c''], [''a''], [''b'']]"
  let ?run = "csvsort getsizeof_min 42 ''in.csv'' [Index 0] ''out.csv'' 0 True ?disk"
  have "map_option snd ?run = Some (Inr ())"
    by code_simp
  then obtain s' where run: "?run = Some (s', Inr ())"
    by (cases ?run) auto
  have rd: "read_rows ''in.csv'' ?disk = Inr [[''k''], [''c''], [''a''], [''b'']]"
    by (simp add: read_rows_def disk_with_def)
  have hd: "take_header True [[''k''], [''c''], [''a''], [''b'']]
              = Inr (Some [''k''], [[''c''], [''a''], [''b'']])"
    by (simp add: take_header_def)
  have t: "tmp_dir_of 42 = ''.csvsorter.42''"
    by code_simp
  have i: "\<not> prefix (tmp_dir_of 42 @ ''/'') ''in.csv''"
    unfolding t by simp
  have o: "\<not> prefix (tmp_dir_of 42 @ ''/'') ''out.csv''"
    unfolding t by simp
  have "\<exists>out_rows. files s' (out_path ''in.csv'' ''out.csv'')
           = Some (header_rows (Some [''k'']) @ out_rows) \<and>
         mset out_rows = mset [[''c''], [''a''], [''b'']]"
    by (rule rows_preserved [OF run rd hd i o])
  then show ?thesis
    using run by (simp add: out_path_def header_rows_def)
qed

section \<open>Order within a chunk\<close>

subsection \<open>A run with a single chunk\<close>

lemma csvsplit_loop_single:
  "int (current_size + sum_list (map getsizeof (butlast reader))) \<le> max_size \<Longrightarrow>
   snd (csvsplit_loop getsizeof max_size tmp_dir reader writer current_size fns s) =
     (if reader = [] then fns
      else case writer of None \<Rightarrow> fns @ [split_file tmp_dir (length fns)] | Some f \<Rightarrow> fns)"
proof (induction reader arbitrary: writer current_size fns s)
  case Nil
  show ?case by simp
next
  case (Cons r reader)
  show ?case
  proof (cases "reader = []")
    case True
    then show ?thesis
      by (cases writer) (simp_all add: csvsplit_loop_step Let_def split_file_def)
  next
    case False
    then have "int (current_size + getsizeof r + sum_list (map getsizeof (butlast reader)))
                 \<le> max_size"
      using Cons.prems by (simp add: add.assoc)
    then have small: "\<not> int (current_size + getsizeof r) > max_size"
      and next_ok: "int ((current_size + getsizeof r)
                      + sum_list (map getsizeof (butlast reader))) \<le> max_size"
      by simp_all
    show ?thesis
      using False small Cons.IH [OF next_ok]
      by (cases writer) (simp_all add: csvsplit_loop_step Let_def split_file_def)
  qed
qed

lemma csvsplit_single:
  assumes "rows \<noteq> []" "one_chunk getsizeof max_size rows"
  shows "snd (csvsplit getsizeof rows max_size tmp_dir s) = [split_file tmp_dir 0]"
  using assms csvsplit_loop_single [of 0 getsizeof rows "max_size * 1024 * 1024" tmp_dir None "[]" s]
  by (simp add: csvsplit_def one_chunk_def)

lemma csvsplit_empty: "csvsplit getsizeof [] max_size tmp_dir s = (s, [])"
  by (simp add: csvsplit_def)

subsection \<open>The rows of a chunk in the output\<close>

lemma sort_rows_key_of:
  assumes "sort_rows columns rows = Inr sorted_rows"
  shows "(\<forall>r \<in> set rows. sort_key_of columns r = Inr (key_of columns r)) \<and>
         sorted_rows = sort_key (key_of columns) rows"
proof -
  obtain k where "\<forall>r \<in> set rows. sort_key_of columns r = Inr (k r)"
    using sort_rows_Inr [OF assms] by (elim exE conjE) (rule that; assumption)
  then have keys: "\<forall>r \<in> set rows. sort_key_of columns r = Inr (key_of columns r)"
    by (simp add: key_of_def)
  then have "sort_rows columns rows = Inr (sort_key (key_of columns) rows)"
    by (rule sort_rows_eq)
  with assms keys show ?thesis by simp
qed

lemma memorysort_key_of:
  assumes "memorysort f columns s = (s', Inr u)"
  shows "\<exists>rows. files s f = Some rows \<and>
           (\<forall>r \<in> set rows. sort_key_of columns r = Inr (key_of columns r)) \<and>
           files s' = (files s)(f \<mapsto> sort_key (key_of columns) rows)"
proof -
  obtain rows where rows: "files s f = Some rows"
    using assms by (auto simp: memorysort_def read_rows_def split: option.splits sum.splits)
  then obtain sorted_rows where sorted: "sort_rows columns rows = Inr sorted_rows"
    and s': "s' = writerows f sorted_rows (open_w f s)"
    using assms by (auto simp: memorysort_def read_rows_def split: sum.splits)
  from sort_rows_key_of [OF sorted] rows s' show ?thesis
    by (simp add: files_rewrite)
qed

lemma memorysort_each_sorted:
  assumes "memorysort_each fns columns s = (s', Inr u)" "distinct fns"
  shows "\<forall>f \<in> set fns.
           content s' f = sort_key (key_of columns) (content s f) \<and>
           (\<forall>r \<in> set (content s f). sort_key_of columns r = Inr (key_of columns r))"
  using assms
proof (induction fns arbitrary: s)
  case Nil
  then show ?case by simp
next
  case (Cons f fns)
  from Cons.prems(1) obtain s1 u1 where one: "memorysort f columns s = (s1, Inr u1)"
    and rest: "memorysort_each fns columns s1 = (s', Inr u)"
    by (auto split: prod.splits sum.splits)
  obtain rows where
    rows: "files s f = Some rows"
    and keys: "\<forall>r \<in> set rows. sort_key_of columns r = Inr (key_of columns r)"
    and s1: "files s1 = (files s)(f \<mapsto> sort_key (key_of columns) rows)"
    using memorysort_key_of [OF one] by (elim exE conjE) (rule that; assumption)
  from Cons.prems(2) have nf: "f \<notin> set fns" and dist: "distinct fns"
    by simp_all
  note ih = Cons.IH [OF rest dist]
  have untouched: "files s' f = files s1 f"
    using memorysort_each_inv [OF rest dist] nf by blast
  have here: "content s' f = sort_key (key_of columns) (content s f) \<and>
              (\<forall>r \<in> set (content s f). sort_key_of columns r = Inr (key_of columns r))"
    using untouched rows s1 keys by (simp add: content_def)
  have there: "\<forall>g \<in> set fns.
           content s' g = sort_key (key_of columns) (content s g) \<and>
           (\<forall>r \<in> set (content s g). sort_key_of columns r = Inr (key_of columns r))"
  proof
    fix g assume g: "g \<in> set fns"
    then have "g \<noteq> f" using nf by blast
    then have "content s1 g = content s g"
      using s1 by (simp add: content_def)
    with ih g show "content s' g = sort_key (key_of columns) (content s g) \<and>
           (\<forall>r \<in> set (content s g). sort_key_of columns r = Inr (key_of columns r))"
      by simp
  qed
  show ?case
    using here there by simp
qed

lemma csvsort_try_chunks:
  assumes run: "csvsort_try getsizeof tmp_dir input_filename columns output_filename max_size
             has_header s = Some (s', Inr u)"
    and rd: "read_rows input_filename s = Inr input_rows"
    and hd: "take_header has_header input_rows = Inr (header, rows)"
    and ws: "\<forall>name. out_path input_filename output_filename \<noteq> path_join tmp_dir name"
    and split: "csvsplit getsizeof rows max_size tmp_dir s = (s1, fns)"
  shows "\<exists>cols out_rows.
           snd (parse_columns columns header) = Inr cols \<and>
           (\<forall>r \<in> set rows. sort_key_of cols r = Inr (key_of cols r)) \<and>
           concat (map (content s1) fns) = rows \<and>
           files s' (out_path input_filename output_filename)
             = Some (header_rows header @ out_rows) \<and>
           mset out_rows = mset rows \<and>
           (\<forall>f \<in> set fns. subseq (sort_key (key_of cols) (content s1 f)) out_rows)"
proof -
  let ?out = "out_path input_filename output_filename"
  obtain cols s1' fns' s2 s3 f R where
    cols: "snd (parse_columns columns header) = Inr cols"
    and split': "csvsplit getsizeof rows max_size tmp_dir s = (s1', fns')"
    and ms': "memorysort_each fns' cols s1' = (s2, Inr ())"
    and mg: "mergesort fns' cols 2 tmp_dir s2 = Some (s3, Inr f)"
    and R: "read_rows f (writerows ?out (header_rows header) (open_w ?out s3)) = Inr R"
    and s': "s' = writerows ?out R (writerows ?out (header_rows header) (open_w ?out s3))"
    using csvsort_try_stages [OF run rd hd]
    by (elim exE conjE) (rule that; assumption)
  have eq1: "s1' = s1" "fns' = fns"
    using split split' by simp_all
  note ms = ms' [unfolded eq1]
  note mg = mg [unfolded eq1]
  from csvsplit_inv [OF split] have
    names: "fns = map (split_file tmp_dir) [0..<length fns]"
    and all: "concat (map (content s1) fns) = rows"
    by simp_all
  have dist: "distinct fns"
    using names split_files_distinct [of tmp_dir "length fns"] by simp
  have ex: "\<forall>g \<in> set fns. files s2 g \<noteq> None"
    using memorysort_each_inv [OF ms dist] by blast
  note sorted = memorysort_each_sorted [OF ms dist]
  have keys: "\<forall>r \<in> set rows. sort_key_of cols r = Inr (key_of cols r)"
  proof
    fix r assume "r \<in> set rows"
    then obtain g where "g \<in> set fns" "r \<in> set (content s1 g)"
      using all by auto
    then show "sort_key_of cols r = Inr (key_of cols r)"
      using sorted by blast
  qed
  have ne: "fns \<noteq> []"
    using mg by (auto simp: mergesort_def mergesort_loop_empty)
  have nm: "\<forall>g \<in> set fns. \<forall>m \<ge> 0. g \<noteq> merge_file tmp_dir m"
  proof (intro ballI allI impI)
    fix g m assume "g \<in> set fns"
    then have "g \<in> set (map (split_file tmp_dir) [0..<length fns])"
      using names by simp
    then obtain i where "g = split_file tmp_dir i"
      by auto
    then show "g \<noteq> merge_file tmp_dir m"
      by (simp add: split_file_not_merge_file)
  qed
  obtain s3' f' where
    mg': "mergesort_loop fns cols 2 tmp_dir 0 s2 = Some (s3', Inr f')"
    and exf: "files s3' f' \<noteq> None"
    and wh: "f' \<in> set fns \<or> (\<exists>m. f' = merge_file tmp_dir m)"
    and sb: "\<forall>g \<in> set fns. subseq (content s2 g) (content s3' f')"
    using mergesort_loop_inv [OF ne dist ex nm, of cols]
    by (elim exE conjE) (rule that; assumption)
  have eq: "s3' = s3" "f' = f"
    using mg mg' by (simp_all add: mergesort_def)
  have "\<exists>name. f = path_join tmp_dir name"
  proof -
    from wh eq have "f \<in> set (map (split_file tmp_dir) [0..<length fns]) \<or>
                     (\<exists>m. f = merge_file tmp_dir m)"
      using names by simp
    then show ?thesis
      by (auto simp: split_file_def merge_file_def)
  qed
  then have fo: "f \<noteq> ?out"
    using ws by blast
  have "files (writerows ?out (header_rows header) (open_w ?out s3)) f = Some (content s3 f)"
    using files_header_written [OF fo] files_Some_content exf eq by simp
  then have Rc: "R = content s3 f"
    using R by (simp add: read_rows_def)
  have out: "files s' ?out = Some (header_rows header @ R)"
    unfolding s' by (rule files_out_written)
  have sub: "\<forall>g \<in> set fns. subseq (sort_key (key_of cols) (content s1 g)) R"
    using sb sorted eq Rc by simp
  obtain out_rows where
    "files s' ?out = Some (header_rows header @ out_rows)" "mset out_rows = mset rows"
    using csvsort_try_rows [OF run rd hd ws] by (elim exE conjE) (rule that; assumption)
  then have "mset R = mset rows"
    using out by simp
  with cols keys all out sub show ?thesis
    by (intro exI [of _ cols] exI [of _ R]) simp
qed

lemma csvsort_chunks:
  assumes "csvsort getsizeof pid input_filename columns output_filename max_size has_header s
             = Some (s', Inr u)"
    and "read_rows input_filename s = Inr input_rows"
    and "take_header has_header input_rows = Inr (header, rows)"
    and "\<not> prefix (tmp_dir_of pid @ ''/'') input_filename"
    and "\<not> prefix (tmp_dir_of pid @ ''/'') output_filename"
    and "csvsplit getsizeof rows max_size (tmp_dir_of pid) (makedirs (tmp_dir_of pid) s)
           = (s1, fns)"
  shows "\<exists>cols out_rows.
           snd (parse_columns columns header) = Inr cols \<and>
           (\<forall>r \<in> set rows. sort_key_of cols r = Inr (key_of cols r)) \<and>
           concat (map (content s1) fns) = rows \<and>
           files s' (out_path input_filename output_filename)
             = Some (header_rows header @ out_rows) \<and>
           mset out_rows = mset rows \<and>
           (\<forall>f \<in> set fns. subseq (sort_key (key_of cols) (content s1 f)) out_rows)"
proof -
  let ?out = "out_path input_filename output_filename"
  let ?tmp = "tmp_dir_of pid"
  obtain s2 where
    run: "csvsort_try getsizeof ?tmp input_filename columns output_filename max_size
            has_header (makedirs ?tmp s) = Some (s2, Inr u)"
    and s': "s' = rmtree ?tmp s2"
    using csvsort_Some [OF assms(1)] by (elim exE conjE) (rule that; assumption)
  have out: "\<not> prefix (?tmp @ ''/'') ?out"
    using assms(4,5) by (rule out_path_outside)
  then have ws: "\<forall>name. ?out \<noteq> path_join ?tmp name"
    using not_workspace_file by blast
  have rd: "read_rows input_filename (makedirs ?tmp s) = Inr input_rows"
    using assms(2) by (simp only: read_rows_makedirs)
  have "files s' ?out = files s2 ?out"
    unfolding s' using out by (rule files_rmtree_outside)
  then show ?thesis
    using csvsort_try_chunks [OF run rd assms(3) ws assms(6)] by simp
qed

lemma header_rows_kept:
  "header \<noteq> Some [] \<Longrightarrow> header_rows header = (case header of None \<Rightarrow> [] | Some h \<Rightarrow> [h])"
  by (cases header) (simp_all add: header_rows_def)

lemma keys_of_collect:
  "map f xs = map Inr ks \<Longrightarrow> map (\<lambda>r. case f r of Inl e \<Rightarrow> [] | Inr k \<Rightarrow> k) xs = ks"
  by (induction xs arbitrary: ks) auto

lemma sorted_on_keys: "sorted_on columns rows \<Longrightarrow> sorted (map (key_of columns) rows)"
proof -
  assume a: "sorted_on columns rows"
  then obtain keys where c: "collect (map (sort_key_of columns) rows) = Inr keys"
    and s: "sorted keys"
    by (auto simp: sorted_on_def split: sum.splits)
  from c have "map (sort_key_of columns) rows = map Inr keys"
    by (rule collect_InrD)
  then have "map (\<lambda>r. case sort_key_of columns r of Inl e \<Rightarrow> [] | Inr k \<Rightarrow> k) rows = keys"
    by (rule keys_of_collect)
  then have "map (key_of columns) rows = keys"
    by (simp add: key_of_def [abs_def])
  with s show ?thesis by simp
qed

lemma sorted_concat_part:
  "sorted (map k (concat cs)) \<Longrightarrow> c \<in> set cs \<Longrightarrow> sorted (map k c)"
  by (induction cs) (auto simp: sorted_append)

lemma one_chunk_content:
  assumes split: "csvsplit getsizeof rows max_size tmp_dir s = (s1, fns)"
    and rows: "rows \<noteq> []" and one: "one_chunk getsizeof max_size rows"
  shows "map (content s1) fns = [rows]"
proof -
  have fns: "fns = [split_file tmp_dir 0]"
    using csvsplit_single [OF rows one, of tmp_dir s] split by simp
  then show ?thesis
    using csvsplit_inv [OF split] by simp
qed

lemma returns_nonempty:
  assumes "csvsort getsizeof pid input_filename columns output_filename max_size has_header s
             = Some (s', Inr u)"
    and "read_rows input_filename s = Inr input_rows"
    and "take_header has_header input_rows = Inr (header, rows)"
  shows "rows \<noteq> []"
proof
  assume empty: "rows = []"
  let ?tmp = "tmp_dir_of pid"
  obtain s2 where
    run: "csvsort_try getsizeof ?tmp input_filename columns output_filename max_size
            has_header (makedirs ?tmp s) = Some (s2, Inr u)"
    using csvsort_Some [OF assms(1)] by (elim exE conjE) (rule that; assumption)
  have rd: "read_rows input_filename (makedirs ?tmp s) = Inr input_rows"
    using assms(2) by (simp only: read_rows_makedirs)
  obtain cols s1 fns s2' s3 f where
    split: "csvsplit getsizeof rows max_size ?tmp (makedirs ?tmp s) = (s1, fns)"
    and mg: "mergesort fns cols 2 ?tmp s2' = Some (s3, Inr f)"
    using csvsort_try_stages [OF run rd assms(3)]
    by (elim exE conjE) (rule that; assumption)
  from split have "fns = []"
    unfolding empty by (simp add: csvsplit_empty)
  with mg show False
    by (simp add: mergesort_def mergesort_loop_empty)
qed

subsection \<open>Rows with equal keys\<close>

text \<open>
  C2, as the code has it. The data rows are cut into chunks in input order. When the
  header is absent or not empty and \<^verbatim>\<open>csvsort\<close> returns, the output is the header, if any,
  followed by rows among which, for every chunk and every key tuple, the rows of that chunk
  with that key come in the order they have in the input: the sort of a chunk is stable
  and a merge keeps the order of each of its streams. When all data rows land in one chunk
  (the sizes of all rows but the last add up to no more than \<open>max_size\<close> megabytes), that
  chunk is the whole input.
\<close>

theorem equal_keys_keep_order_within_chunk:
  assumes "csvsort getsizeof pid input_filename columns output_filename max_size has_header s
             = Some (s', Inr u)"
    and "read_rows input_filename s = Inr input_rows"
    and "take_header has_header input_rows = Inr (header, rows)"
    and "\<not> prefix (tmp_dir_of pid @ ''/'') input_filename"
    and "\<not> prefix (tmp_dir_of pid @ ''/'') output_filename"
    and "csvsplit getsizeof rows max_size (tmp_dir_of pid) (makedirs (tmp_dir_of pid) s)
           = (s1, fns)"
    and "header \<noteq> Some []"
  shows "\<exists>cols out_rows.
           snd (parse_columns columns header) = Inr cols \<and>
           (\<forall>r \<in> set rows. sort_key_of cols r = Inr (key_of cols r)) \<and>
           concat (map (content s1) fns) = rows \<and>
           files s' (out_path input_filename output_filename)
             = Some ((case header of None \<Rightarrow> [] | Some h \<Rightarrow> [h]) @ out_rows) \<and>
           (\<forall>f \<in> set fns. \<forall>key.
              subseq (filter (\<lambda>r. key_of cols r = key) (content s1 f))
                     (filter (\<lambda>r. key_of cols r = key) out_rows)) \<and>
           (one_chunk getsizeof max_size rows \<longrightarrow> map (content s1) fns = [rows])"
proof -
  obtain cols out_rows where
    cols: "snd (parse_columns columns header) = Inr cols"
    and keys: "\<forall>r \<in> set rows. sort_key_of cols r = Inr (key_of cols r)"
    and all: "concat (map (content s1) fns) = rows"
    and out: "files s' (out_path input_filename output_filename)
                = Some (header_rows header @ out_rows)"
    and sub: "\<forall>f \<in> set fns. subseq (sort_key (key_of cols) (content s1 f)) out_rows"
    using csvsort_chunks [OF assms(1-6)] by (elim exE conjE) (rule that; assumption)
  have out': "files s' (out_path input_filename output_filename)
                = Some ((case header of None \<Rightarrow> [] | Some h \<Rightarrow> [h]) @ out_rows)"
    using out header_rows_kept [OF assms(7)] by simp
  have same: "\<forall>f \<in> set fns. \<forall>key.
              subseq (filter (\<lambda>r. key_of cols r = key) (content s1 f))
                     (filter (\<lambda>r. key_of cols r = key) out_rows)"
  proof (intro ballI allI)
    fix f key assume "f \<in> set fns"
    then have "subseq (sort_key (key_of cols) (content s1 f)) out_rows"
      using sub by blast
    then have "subseq (filter (\<lambda>r. key_of cols r = key) (sort_key (key_of cols) (content s1 f)))
                 (filter (\<lambda>r. key_of cols r = key) out_rows)"
      by (rule subseq_filter)
    then show "subseq (filter (\<lambda>r. key_of cols r = key) (content s1 f))
                 (filter (\<lambda>r. key_of cols r = key) out_rows)"
      by (simp only: sort_key_stable)
  qed
  have one: "one_chunk getsizeof max_size rows \<longrightarrow> map (content s1) fns = [rows]"
    using one_chunk_content [OF assms(6) returns_nonempty [OF assms(1-3)]] by blast
  from cols keys all out' same one show ?thesis
    by (intro exI [of _ cols] exI [of _ out_rows] conjI)
qed

theorem equal_keys_keep_order_within_chunk_witness:
  "(\<exists>s' s1 fns.
      csvsort getsizeof_wide 42 ''in.csv'' [Index 0] ''out.csv'' 1 True
        (disk_with ''in.csv''
           [[''k'', ''v''], [''b'', ''2''], [''a'', ''1''], [''a'', ''3''], [''a'', ''0'']])
        = Some (s', Inr ()) \<and>
      csvsplit getsizeof_wide [[''b'', ''2''], [''a'', ''1''], [''a'', ''3''], [''a'', ''0'']] 1
        (tmp_dir_of 42)
        (makedirs (tmp_dir_of 42)
           (disk_with ''in.csv''
              [[''k'', ''v''], [''b'', ''2''], [''a'', ''1''], [''a'', ''3''], [''a'', ''0'']]))
        = (s1, fns) \<and>
      map (content s1) fns = [[[''b'', ''2''], [''a'', ''1'']], [[''a'', ''3''], [''a'', ''0'']]] \<and>
      files s' ''out.csv''
        = Some [[''k'', ''v''], [''a'', ''1''], [''a'', ''3''], [''a'', ''0''], [''b'', ''2'']] \<and>
      (\<forall>f \<in> set fns. \<forall>key.
         subseq (filter (\<lambda>r. key_of [Index 0] r = key) (content s1 f))
           (filter (\<lambda>r. key_of [Index 0] r = key)
              [[''a'', ''1''], [''a'', ''3''], [''a'', ''0''], [''b'', ''2'']]))) \<and>
   (\<exists>s' s1 fns.
      csvsort getsizeof_min 42 ''in.csv'' [Index 0] ''out.csv'' 100 True
        (disk_with ''in.csv'' [[''k'', ''v''], [''b'', ''2''], [''a'', ''3''], [''a'', ''1'']])
        = Some (s', Inr ()) \<and>
      csvsplit getsizeof_min [[''b'', ''2''], [''a'', ''3''], [''a'', ''1'']] 100
        (tmp_dir_of 42)
        (makedirs (tmp_dir_of 42)
           (disk_with ''in.csv'' [[''k'', ''v''], [''b'', ''2''], [''a'', ''3''], [''a'', ''1'']]))
        = (s1, fns) \<and>
      one_chunk getsizeof_min 100 [[''b'', ''2''], [''a'', ''3''], [''a'', ''1'']] \<and>
      map (content s1) fns = [[[''b'', ''2''], [''a'', ''3''], [''a'', ''1'']]] \<and>
      files s' ''out.csv'' = Some [[''k'', ''v''], [''a'', ''3''], [''a'', ''1''], [''b'', ''2'']] \<and>
      (\<forall>f \<in> set fns. \<forall>key.
         subseq (filter (\<lambda>r. key_of [Index 0] r = key) (content s1 f))
           (filter (\<lambda>r. key_of [Index 0] r = key)
              [[''a'', ''3''], [''a'', ''1''], [''b'', ''2'']])))"
proof (rule conjI)
  have t: "tmp_dir_of 42 = ''.csvsorter.42''"
    by code_simp
  have i: "\<not> prefix (tmp_dir_of 42 @ ''/'') ''in.csv''"
    unfolding t by simp
  have o: "\<not> prefix (tmp_dir_of 42 @ ''/'') ''out.csv''"
    unfolding t by simp
  have h: "Some [''k'', ''v''] \<noteq> Some []"
    by simp
  have p: "snd (parse_columns [Index 0] (Some [''k'', ''v''])) = Inr [Index 0]"
    by (simp add: parse_columns_eq check_column_def)
  {
    let ?rows = "[[''b'', ''2''], [''a'', ''1''], [''a'', ''3''], [''a'', ''0'']]"
    let ?out = "[[''a'', ''1''], [''a'', ''3''], [''a'', ''0''], [''b'', ''2'']]"
    let ?disk = "disk_with ''in.csv'' ([''k'', ''v''] # ?rows)"
    let ?run = "csvsort getsizeof_wide 42 ''in.csv'' [Index 0] ''out.csv'' 1 True ?disk"
    let ?sp = "csvsplit getsizeof_wide ?rows 1 (tmp_dir_of 42) (makedirs (tmp_dir_of 42) ?disk)"
    have oc: "outcome ''out.csv'' ?run = Some (Some ([''k'', ''v''] # ?out), Inr ())"
      by code_simp
    then obtain s' where run: "?run = Some (s', Inr ())"
      and out: "files s' ''out.csv'' = Some ([''k'', ''v''] # ?out)"
      by (cases ?run) (auto simp: outcome_def)
    obtain s1 fns where split: "?sp = (s1, fns)"
      by (cases ?sp) blast
    have "map (content (fst ?sp)) (snd ?sp) = [[[''b'', ''2''], [''a'', ''1'']], [[''a'', ''3''], [''a'', ''0'']]]"
      by code_simp
    then have chunks: "map (content s1) fns
                         = [[[''b'', ''2''], [''a'', ''1'']], [[''a'', ''3''], [''a'', ''0'']]]"
      unfolding split by simp
    have rd: "read_rows ''in.csv'' ?disk = Inr ([''k'', ''v''] # ?rows)"
      by (simp add: read_rows_def disk_with_def)
    have hd: "take_header True ([''k'', ''v''] # ?rows) = Inr (Some [''k'', ''v''], ?rows)"
      by (simp add: take_header_def)
    obtain cols out_rows where
      cols: "snd (parse_columns [Index 0] (Some [''k'', ''v''])) = Inr cols"
      and written: "files s' (out_path ''in.csv'' ''out.csv'')
                      = Some ((case Some [''k'', ''v''] of None \<Rightarrow> [] | Some h \<Rightarrow> [h]) @ out_rows)"
      and same: "\<forall>f \<in> set fns. \<forall>key.
                   subseq (filter (\<lambda>r. key_of cols r = key) (content s1 f))
                     (filter (\<lambda>r. key_of cols r = key) out_rows)"
      using equal_keys_keep_order_within_chunk [OF run rd hd i o split h]
      by (elim exE conjE) (rule that; assumption)
    have c: "cols = [Index 0]"
      using cols p by simp
    have r: "out_rows = ?out"
      using written out by (simp add: out_path_def)
    from run split chunks out same [unfolded c r]
    show "\<exists>s' s1 fns. ?run = Some (s', Inr ()) \<and> ?sp = (s1, fns) \<and>
            map (content s1) fns
              = [[[''b'', ''2''], [''a'', ''1'']], [[''a'', ''3''], [''a'', ''0'']]] \<and>
            files s' ''out.csv'' = Some ([''k'', ''v''] # ?out) \<and>
            (\<forall>f \<in> set fns. \<forall>key.
               subseq (filter (\<lambda>r. key_of [Index 0] r = key) (content s1 f))
                 (filter (\<lambda>r. key_of [Index 0] r = key) ?out))"
      by (intro exI [of _ s'] exI [of _ s1] exI [of _ fns] conjI)
  }
  {
    let ?rows = "[[''b'', ''2''], [''a'', ''3''], [''a'', ''1'']]"
    let ?out = "[[''a'', ''3''], [''a'', ''1''], [''b'', ''2'']]"
    let ?disk = "disk_with ''in.csv'' ([''k'', ''v''] # ?rows)"
    let ?run = "csvsort getsizeof_min 42 ''in.csv'' [Index 0] ''out.csv'' 100 True ?disk"
    let ?sp = "csvsplit getsizeof_min ?rows 100 (tmp_dir_of 42) (makedirs (tmp_dir_of 42) ?disk)"
    have oc: "outcome ''out.csv'' ?run = Some (Some ([''k'', ''v''] # ?out), Inr ())"
      by code_simp
    then obtain s' where run: "?run = Some (s', Inr ())"
      and out: "files s' ''out.csv'' = Some ([''k'', ''v''] # ?out)"
      by (cases ?run) (auto simp: outcome_def)
    obtain s1 fns where split: "?sp = (s1, fns)"
      by (cases ?sp) blast
    have rd: "read_rows ''in.csv'' ?disk = Inr ([''k'', ''v''] # ?rows)"
      by (simp add: read_rows_def disk_with_def)
    have hd: "take_header True ([''k'', ''v''] # ?rows) = Inr (Some [''k'', ''v''], ?rows)"
      by (simp add: take_header_def)
    have one: "one_chunk getsizeof_min 100 ?rows"
      by (simp add: one_chunk_def getsizeof_min_def)
    obtain cols out_rows where
      cols: "snd (parse_columns [Index 0] (Some [''k'', ''v''])) = Inr cols"
      and written: "files s' (out_path ''in.csv'' ''out.csv'')
                      = Some ((case Some [''k'', ''v''] of None \<Rightarrow> [] | Some h \<Rightarrow> [h]) @ out_rows)"
      and same: "\<forall>f \<in> set fns. \<forall>key.
                   subseq (filter (\<lambda>r. key_of cols r = key) (content s1 f))
                     (filter (\<lambda>r. key_of cols r = key) out_rows)"
      and single: "one_chunk getsizeof_min 100 ?rows \<longrightarrow> map (content s1) fns = [?rows]"
      using equal_keys_keep_order_within_chunk [OF run rd hd i o split h]
      by (elim exE conjE) (rule that; assumption)
    have chunks: "map (content s1) fns = [?rows]"
      using single one by (rule mp)
    have c: "cols = [Index 0]"
      using cols p by simp
    have r: "out_rows = ?out"
      using written out by (simp add: out_path_def)
    from run split one chunks out same [unfolded c r]
    show "\<exists>s' s1 fns. ?run = Some (s', Inr ()) \<and> ?sp = (s1, fns) \<and>
            one_chunk getsizeof_min 100 ?rows \<and>
            map (content s1) fns = [?rows] \<and>
            files s' ''out.csv'' = Some ([''k'', ''v''] # ?out) \<and>
            (\<forall>f \<in> set fns. \<forall>key.
               subseq (filter (\<lambda>r. key_of [Index 0] r = key) (content s1 f))
                 (filter (\<lambda>r. key_of [Index 0] r = key) ?out))"
      by (intro exI [of _ s'] exI [of _ s1] exI [of _ fns] conjI)
  }
qed

text \<open>
  C2 as stated fails for rows of different chunks. The rows \<open>[a, 2]\<close>, \<open>[b, 0]\<close> and
  \<open>[a, 1]\<close> land in three chunks. \<^verbatim>\<open>mergesort\<close> merges the first two chunks and appends the
  merged file behind the third, so in the last pass the third chunk is the first stream and
  \<open>[a, 1]\<close> comes out ahead of \<open>[a, 2]\<close>, which has the same key on column 0 and precedes
  it in the input. A merge that compared keys and gave ties to the first stream would
  put them in this order too.
\<close>

theorem stability_across_chunks_counterexample:
  "outcome ''out.csv''
     (csvsort getsizeof_min 42 ''in.csv'' [Index 0] ''out.csv'' 0 True
        (disk_with ''in.csv'' [[''k'', ''v''], [''a'', ''2''], [''b'', ''0''], [''a'', ''1'']]))
     = Some (Some [[''k'', ''v''], [''a'', ''1''], [''a'', ''2''], [''b'', ''0'']], Inr ()) \<and>
   sort_key_of [Index 0] [''a'', ''2''] = sort_key_of [Index 0] [''a'', ''1''] \<and>
   map (content (fst (csvsplit getsizeof_min [[''a'', ''2''], [''b'', ''0''], [''a'', ''1'']] 0
                        ''tmp'' (makedirs ''tmp'' (disk_with ''in.csv'' [])))))
     (snd (csvsplit getsizeof_min [[''a'', ''2''], [''b'', ''0''], [''a'', ''1'']] 0
             ''tmp'' (makedirs ''tmp'' (disk_with ''in.csv'' []))))
     = [[[''a'', ''2'']], [[''b'', ''0'']], [[''a'', ''1'']]]"
  by code_simp

subsection \<open>Input that is already sorted\<close>

text \<open>
  C8, as the code has it. When the data rows are already in ascending order of their key
  tuples, the header is absent or not empty and \<^verbatim>\<open>csvsort\<close> returns, the output is the
  header, if any, followed by a permutation of the data rows in which the rows of every
  chunk keep the order they have in the input; when all data rows land in one chunk, the
  output holds the data rows in exactly the order of the input.
\<close>

theorem sorted_rows_keep_order_within_chunk:
  assumes "csvsort getsizeof pid input_filename columns output_filename max_size has_header s
             = Some (s', Inr u)"
    and "read_rows input_filename s = Inr input_rows"
    and "take_header has_header input_rows = Inr (header, rows)"
    and "\<not> prefix (tmp_dir_of pid @ ''/'') input_filename"
    and "\<not> prefix (tmp_dir_of pid @ ''/'') output_filename"
    and "csvsplit getsizeof rows max_size (tmp_dir_of pid) (makedirs (tmp_dir_of pid) s)
           = (s1, fns)"
    and "header \<noteq> Some []"
    and "snd (parse_columns columns header) = Inr cols"
    and "sorted_on cols rows"
  shows "\<exists>out_rows.
           files s' (out_path input_filename output_filename)
             = Some ((case header of None \<Rightarrow> [] | Some h \<Rightarrow> [h]) @ out_rows) \<and>
           mset out_rows = mset rows \<and>
           concat (map (content s1) fns) = rows \<and>
           (\<forall>f \<in> set fns. subseq (content s1 f) out_rows) \<and>
           (one_chunk getsizeof max_size rows \<longrightarrow> out_rows = rows)"
proof -
  obtain cols' out_rows where
    cols': "snd (parse_columns columns header) = Inr cols'"
    and all: "concat (map (content s1) fns) = rows"
    and out: "files s' (out_path input_filename output_filename)
                = Some (header_rows header @ out_rows)"
    and ms: "mset out_rows = mset rows"
    and sub: "\<forall>f \<in> set fns. subseq (sort_key (key_of cols') (content s1 f)) out_rows"
    using csvsort_chunks [OF assms(1-6)] by (elim exE conjE) (rule that; assumption)
  have eq: "cols' = cols"
    using cols' assms(8) by simp
  have out': "files s' (out_path input_filename output_filename)
                = Some ((case header of None \<Rightarrow> [] | Some h \<Rightarrow> [h]) @ out_rows)"
    using out header_rows_kept [OF assms(7)] by simp
  have sorted: "sorted (map (key_of cols) (concat (map (content s1) fns)))"
    using sorted_on_keys [OF assms(9)] all by simp
  have kept: "\<forall>f \<in> set fns. subseq (content s1 f) out_rows"
  proof
    fix f assume f: "f \<in> set fns"
    then have "content s1 f \<in> set (map (content s1) fns)"
      by simp
    then have "sorted (map (key_of cols) (content s1 f))"
      using sorted by (rule sorted_concat_part [rotated])
    then have "sort_key (key_of cols) (content s1 f) = content s1 f"
      by (rule sort_key_id_if_sorted)
    then show "subseq (content s1 f) out_rows"
      using sub f eq by auto
  qed
  have one: "one_chunk getsizeof max_size rows \<longrightarrow> out_rows = rows"
  proof
    assume "one_chunk getsizeof max_size rows"
    then have "map (content s1) fns = [rows]"
      using one_chunk_content [OF assms(6) returns_nonempty [OF assms(1-3)]] by blast
    then obtain f where "fns = [f]" "content s1 f = rows"
      by auto
    then have "subseq rows out_rows"
      using kept by simp
    moreover have "length rows = length out_rows"
      using ms by (metis mset_eq_length)
    ultimately show "out_rows = rows"
      using subseq_same_length by blast
  qed
  from out' ms all kept one show ?thesis
    by (intro exI [of _ out_rows] conjI)
qed

theorem sorted_rows_keep_order_within_chunk_witness:
  "(\<exists>s' s1 fns.
      csvsort getsizeof_wide 42 ''in.csv'' [Index 1] ''out.csv'' 1 True
        (disk_with ''in.csv''
           [[''k'', ''v''], [''y'', ''1''], [''x'', ''2''], [''w'', ''3''], [''v'', ''4'']])
        = Some (s', Inr ()) \<and>
      csvsplit getsizeof_wide [[''y'', ''1''], [''x'', ''2''], [''w'', ''3''], [''v'', ''4'']] 1
        (tmp_dir_of 42)
        (makedirs (tmp_dir_of 42)
           (disk_with ''in.csv''
              [[''k'', ''v''], [''y'', ''1''], [''x'', ''2''], [''w'', ''3''], [''v'', ''4'']]))
        = (s1, fns) \<and>
      sorted_on [Index 1] [[''y'', ''1''], [''x'', ''2''], [''w'', ''3''], [''v'', ''4'']] \<and>
      map (content s1) fns = [[[''y'', ''1''], [''x'', ''2'']], [[''w'', ''3''], [''v'', ''4'']]] \<and>
      files s' ''out.csv''
        = Some [[''k'', ''v''], [''w'', ''3''], [''v'', ''4''], [''y'', ''1''], [''x'', ''2'']] \<and>
      (\<forall>f \<in> set fns.
         subseq (content s1 f) [[''w'', ''3''], [''v'', ''4''], [''y'', ''1''], [''x'', ''2'']])) \<and>
   (\<exists>s'.
      csvsort getsizeof_min 42 ''in.csv'' [Index 1] ''out.csv'' 100 True
        (disk_with ''in.csv'' [[''k'', ''v''], [''y'', ''1''], [''x'', ''2'']])
        = Some (s', Inr ()) \<and>
      sorted_on [Index 1] [[''y'', ''1''], [''x'', ''2'']] \<and>
      one_chunk getsizeof_min 100 [[''y'', ''1''], [''x'', ''2'']] \<and>
      files s' ''out.csv'' = Some [[''k'', ''v''], [''y'', ''1''], [''x'', ''2'']])"
proof (rule conjI)
  have t: "tmp_dir_of 42 = ''.csvsorter.42''"
    by code_simp
  have i: "\<not> prefix (tmp_dir_of 42 @ ''/'') ''in.csv''"
    unfolding t by simp
  have o: "\<not> prefix (tmp_dir_of 42 @ ''/'') ''out.csv''"
    unfolding t by simp
  have h: "Some [''k'', ''v''] \<noteq> Some []"
    by simp
  have p: "snd (parse_columns [Index 1] (Some [''k'', ''v''])) = Inr [Index 1]"
    by (simp add: parse_columns_eq check_column_def)
  {
    let ?rows = "[[''y'', ''1''], [''x'', ''2''], [''w'', ''3''], [''v'', ''4'']]"
    let ?out = "[[''w'', ''3''], [''v'', ''4''], [''y'', ''1''], [''x'', ''2'']]"
    let ?disk = "disk_with ''in.csv'' ([''k'', ''v''] # ?rows)"
    let ?run = "csvsort getsizeof_wide 42 ''in.csv'' [Index 1] ''out.csv'' 1 True ?disk"
    let ?sp = "csvsplit getsizeof_wide ?rows 1 (tmp_dir_of 42) (makedirs (tmp_dir_of 42) ?disk)"
    have oc: "outcome ''out.csv'' ?run = Some (Some ([''k'', ''v''] # ?out), Inr ())"
      by code_simp
    then obtain s' where run: "?run = Some (s', Inr ())"
      and out: "files s' ''out.csv'' = Some ([''k'', ''v''] # ?out)"
      by (cases ?run) (auto simp: outcome_def)
    obtain s1 fns where split: "?sp = (s1, fns)"
      by (cases ?sp) blast
    have "map (content (fst ?sp)) (snd ?sp)
            = [[[''y'', ''1''], [''x'', ''2'']], [[''w'', ''3''], [''v'', ''4'']]]"
      by code_simp
    then have chunks: "map (content s1) fns
                         = [[[''y'', ''1''], [''x'', ''2'']], [[''w'', ''3''], [''v'', ''4'']]]"
      unfolding split by simp
    have rd: "read_rows ''in.csv'' ?disk = Inr ([''k'', ''v''] # ?rows)"
      by (simp add: read_rows_def disk_with_def)
    have hd: "take_header True ([''k'', ''v''] # ?rows) = Inr (Some [''k'', ''v''], ?rows)"
      by (simp add: take_header_def)
    have so: "sorted_on [Index 1] ?rows"
      by code_simp
    obtain out_rows where
      written: "files s' (out_path ''in.csv'' ''out.csv'')
                  = Some ((case Some [''k'', ''v''] of None \<Rightarrow> [] | Some h \<Rightarrow> [h]) @ out_rows)"
      and kept: "\<forall>f \<in> set fns. subseq (content s1 f) out_rows"
      using sorted_rows_keep_order_within_chunk [OF run rd hd i o split h p so]
      by (elim exE conjE) (rule that; assumption)
    have r: "out_rows = ?out"
      using written out by (simp add: out_path_def)
    from run split so chunks out kept [unfolded r]
    show "\<exists>s' s1 fns. ?run = Some (s', Inr ()) \<and> ?sp = (s1, fns) \<and>
            sorted_on [Index 1] ?rows \<and>
            map (content s1) fns
              = [[[''y'', ''1''], [''x'', ''2'']], [[''w'', ''3''], [''v'', ''4'']]] \<and>
            files s' ''out.csv'' = Some ([''k'', ''v''] # ?out) \<and>
            (\<forall>f \<in> set fns. subseq (content s1 f) ?out)"
      by (intro exI [of _ s'] exI [of _ s1] exI [of _ fns] conjI)
  }
  {
    let ?rows = "[[''y'', ''1''], [''x'', ''2'']]"
    let ?disk = "disk_with ''in.csv'' ([''k'', ''v''] # ?rows)"
    let ?run = "csvsort getsizeof_min 42 ''in.csv'' [Index 1] ''out.csv'' 100 True ?disk"
    let ?sp = "csvsplit getsizeof_min ?rows 100 (tmp_dir_of 42) (makedirs (tmp_dir_of 42) ?disk)"
    have "map_option snd ?run = Some (Inr ())"
      by code_simp
    then obtain s' where run: "?run = Some (s', Inr ())"
      by (cases ?run) auto
    obtain s1 fns where split: "?sp = (s1, fns)"
      by (cases ?sp) blast
    have rd: "read_rows ''in.csv'' ?disk = Inr ([''k'', ''v''] # ?rows)"
      by (simp add: read_rows_def disk_with_def)
    have hd: "take_header True ([''k'', ''v''] # ?rows) = Inr (Some [''k'', ''v''], ?rows)"
      by (simp add: take_header_def)
    have so: "sorted_on [Index 1] ?rows"
      by code_simp
    have one: "one_chunk getsizeof_min 100 ?rows"
      by (simp add: one_chunk_def getsizeof_min_def)
    obtain out_rows where
      written: "files s' (out_path ''in.csv'' ''out.csv'')
                  = Some ((case Some [''k'', ''v''] of None \<Rightarrow> [] | Some h \<Rightarrow> [h]) @ out_rows)"
      and single: "one_chunk getsizeof_min 100 ?rows \<longrightarrow> out_rows = ?rows"
      using sorted_rows_keep_order_within_chunk [OF run rd hd i o split h p so]
      by (elim exE conjE) (rule that; assumption)
    have r: "out_rows = ?rows"
      using single one by (rule mp)
    have out: "files s' ''out.csv'' = Some ([''k'', ''v''] # ?rows)"
      using written unfolding r by (simp add: out_path_def)
    from run so one out
    show "\<exists>s'. ?run = Some (s', Inr ()) \<and> sorted_on [Index 1] ?rows \<and>
            one_chunk getsizeof_min 100 ?rows \<and>
            files s' ''out.csv'' = Some ([''k'', ''v''] # ?rows)"
      by (intro exI [of _ s'] conjI)
  }
qed

text \<open>
  C8 as stated fails for a sorted input that spans three chunks. The rows \<open>[a, 2]\<close>,
  \<open>[a, 3]\<close> and \<open>[a, 1]\<close> all have the key \<open>[a]\<close> on column 0, so the file is sorted on that
  column; a run that keeps them in one chunk writes the file back as it is. With every row
  in a chunk of its own, the third chunk is the first stream of the last merge and \<open>[a, 1]\<close>
  comes out first, as it would from a merge that compared keys and gave ties to the first
  stream.
\<close>

theorem idempotence_across_chunks_counterexample:
  "sorted_on [Index 0] [[''a'', ''2''], [''a'', ''3''], [''a'', ''1'']] \<and>
   outcome ''out.csv''
     (csvsort getsizeof_min 42 ''in.csv'' [Index 0] ''out.csv'' 100 True
        (disk_with ''in.csv'' [[''k'', ''v''], [''a'', ''2''], [''a'', ''3''], [''a'', ''1'']]))
     = Some (Some [[''k'', ''v''], [''a'', ''2''], [''a'', ''3''], [''a'', ''1'']], Inr ()) \<and>
   outcome ''out.csv''
     (csvsort getsizeof_min 42 ''in.csv'' [Index 0] ''out.csv'' 0 True
        (disk_with ''in.csv'' [[''k'', ''v''], [''a'', ''2''], [''a'', ''3''], [''a'', ''1'']]))
     = Some (Some [[''k'', ''v''], [''a'', ''1''], [''a'', ''2''], [''a'', ''3'']], Inr ())"
  by code_simp

section \<open>Runs that depart from the specification\<close>

text \<open>
  C1. Two data rows, one per chunk, sorted on column 1. The merge compares whole rows, so
  the row \<open>[a, 2]\<close> comes out before \<open>[b, 1]\<close> although its key \<open>[2]\<close> is greater.
\<close>

theorem merge_ignores_sort_key:
  "outcome ''out.csv''
     (csvsort getsizeof_min 42 ''in.csv'' [Index 1] ''out.csv'' 0 True
        (disk_with ''in.csv'' [[''k'', ''v''], [''b'', ''1''], [''a'', ''2'']]))
     = Some (Some [[''k'', ''v''], [''a'', ''2''], [''b'', ''1'']], Inr ()) \<and>
   sort_key_of [Index 1] [''a'', ''2''] = Inr [''2''] \<and>
   sort_key_of [Index 1] [''b'', ''1''] = Inr [''1''] \<and>
   \<not> [''2''] \<le> [''1'']"
  by code_simp

text \<open>
  C3. With no data row \<^verbatim>\<open>csvsplit\<close> creates no chunk file and returns the empty list, on which
  \<^verbatim>\<open>mergesort\<close> raises \<^verbatim>\<open>IndexError\<close> at \<^verbatim>\<open>sorted_filenames[0]\<close>; a header-only input makes
  \<^verbatim>\<open>csvsort\<close> fail with it, and no output file is written.
\<close>

theorem empty_input_raises:
  "csvsplit getsizeof [] max_size tmp_dir s = (s, []) \<and>
   mergesort [] columns nway tmp_dir s = Some (s, Inl IndexError) \<and>
   outcome ''out.csv''
     (csvsort getsizeof_min 42 ''in.csv'' [Index 0] ''out.csv'' 100 True
        (disk_with ''in.csv'' [[''k'', ''v'']]))
     = Some (None, Inl IndexError)"
proof (intro conjI)
  show "csvsplit getsizeof [] max_size tmp_dir s = (s, [])"
    by (simp add: csvsplit_def)
  show "mergesort [] columns nway tmp_dir s = Some (s, Inl IndexError)"
    unfolding mergesort_def by (subst mergesort_loop.simps) simp
  show "outcome ''out.csv''
     (csvsort getsizeof_min 42 ''in.csv'' [Index 0] ''out.csv'' 100 True
        (disk_with ''in.csv'' [[''k'', ''v'']]))
     = Some (None, Inl IndexError)"
    by code_simp
qed

text \<open>
  C6. The first line of the input is blank, so the header is the empty row, which counts
  as false in \<^verbatim>\<open>if header:\<close>: the output starts with the first sorted data row.
\<close>

theorem empty_header_dropped:
  "outcome ''out.csv''
     (csvsort getsizeof_min 42 ''in.csv'' [Index 0] ''out.csv'' 100 True
        (disk_with ''in.csv'' [[], [''y''], [''x'']]))
     = Some (Some [[''x''], [''y'']], Inr ())"
  by code_simp

end
